theory Spec2Isabelle
  imports Complex_Main "HOL-Library.Log_Nat" "HOL-Library.Sublist"
begin

section \<open>Data model of the volume-group manager\<close>

text \<open>
  The node-local volume-group manager of the LVM operator, embedded shallowly.
  Host-side effects (storage commands, status writes, the lvmd config file) are
  calls on an environment whose answers are parameters of the model; every call
  the code issues is appended to a trace of events, so that the order of calls
  can be stated.  Recorded Kubernetes events are not modelled, and log lines are
  modelled only in the wipe step, where a logged failure is all that tells a
  failed call from a successful one.
\<close>

text \<open>\<^verbatim>\<open>internal.BlockDevice\<close> / \<^verbatim>\<open>lsblk.BlockDevice\<close>: a tree of devices.
  \<^verbatim>\<open>DevicePath\<close> is the path given by the user; it is empty for a device that
  was not selected through a selector path.  \<^verbatim>\<open>HasChildren()\<close> is \<open>length (Children d) > 0\<close>.\<close>

datatype BlockDevice =
  BlockDevice (bdName: string) (KName: string) (DevicePath: string) (Children: "BlockDevice list")

definition emptyBlockDevice :: BlockDevice where
  "emptyBlockDevice = BlockDevice [] [] [] []"

text \<open>\<^verbatim>\<open>VolumeGroup\<close>: name, reported size and member physical volumes.\<close>

record VolumeGroup =
  vgName :: string
  VgSize :: string
  PVs :: "string list"

text \<open>\<^verbatim>\<open>DeviceSelector\<close> and \<^verbatim>\<open>ThinPoolConfig\<close> of the \<^verbatim>\<open>LVMVolumeGroup\<close> spec.
  \<^verbatim>\<open>ForceWipeDevicesAndDestroyAllData\<close> is a \<^verbatim>\<open>*bool\<close>.\<close>

record DeviceSelector =
  Paths :: "string list"
  OptionalPaths :: "string list"
  ForceWipeDevicesAndDestroyAllData :: "bool option"

record ThinPoolConfig =
  tpName :: string
  SizePercent :: int
  OverprovisionRatio :: int

record LVMVolumeGroup =
  lvgName :: string
  deletionRequested :: bool
  finalizerPresent :: bool
  specDeviceSelector :: "DeviceSelector option"
  specThinPoolConfig :: "ThinPoolConfig option"
  specDefault :: bool

text \<open>The lvmd configuration file: socket name and ordered device classes.\<close>

datatype DeviceClassType = TypeUnset | TypeThick | TypeThin

record LvmdThinPoolConfig =
  ltpName :: string
  ltpOverprovisionRatio :: int

record DeviceClass =
  dcName :: string
  dcVolumeGroup :: string
  dcDefault :: bool
  dcType :: DeviceClassType
  dcThinPoolConfig :: LvmdThinPoolConfig

record LvmdConfig =
  SocketName :: string
  DeviceClasses :: "DeviceClass list"

text \<open>Errors.  An error raised by the host (a failed command, a failed API call)
  is opaque text; the errors built by the manager itself are constructors, and
  \<open>Wrap\<close> is \<^verbatim>\<open>fmt.Errorf("...: %w", err)\<close>.\<close>

datatype error =
    HostError string
  | ZeroDevices string
  | CreateOrExtendFailed string string "string list" error
  | DuplicateDevicePaths "string set"
  | SelectorPathsInvalid error
  | DeviceInvalid string error
  | SymlinkNotFound string error
  | DeviceNotFound string
  | AtLeastOneDeviceRequired
  | VolumeGroupNotFound
  | ReferenceNotFound
  | NotAThinPool string
  | ParseError string
  | NoAvailableDevices string
  | LVReportEmpty
  | NoLVInReport
  | ThinPoolMissing
  | LVInactive string
  | MetadataOverflow string
  | NilThinPoolConfig
  | SliceOutOfRange
  | Wrap string error

text \<open>The calls issued to the host and to the API server, in the order issued.\<close>

datatype statusPhase = Progressing | Ready | Failed

datatype event =
    ExecuteCommand string "string list"
  | EvalSymlinks string
  | WipefsWipe string
  | DmsetupRemove string "error option"
  | LogInfo string
  | LvmdLoad
  | LvmdSave LvmdConfig
  | LvmdDelete
  | ListBlockDevices
  | GetNewDevices
  | ListVGs
  | GetVG string
  | ListLVs string
  | LVExists string string
  | CreateLV string string int
  | ExtendLV string string int
  | DeleteLV string string
  | DeleteVG VolumeGroup
  | SetStatus statusPhase
  | RemoveStatus
  | UpdateFinalizerAdded
  | UpdateFinalizerRemoved

section \<open>Creating or extending a volume group\<close>

text \<open>\<^verbatim>\<open>addDevicesToVG\<close>.  The executor's answer to a command is \<open>None\<close> on
  success and the host's error otherwise.\<close>

type_synonym executor = "string \<Rightarrow> string list \<Rightarrow> error option"

definition vgextend :: string where "vgextend = ''/usr/sbin/vgextend''"
definition vgcreate :: string where "vgcreate = ''/usr/sbin/vgcreate''"

definition addDevicesToVG ::
  "executor \<Rightarrow> VolumeGroup list \<Rightarrow> string \<Rightarrow> BlockDevice list \<Rightarrow> event list \<times> error option" where
  "addDevicesToVG exec vgs name devices =
     (if length devices < 1 then ([], Some (ZeroDevices name))
      else
        let vgFound = foldl (\<lambda>found vg. if vgName vg = name then True else found) False vgs;
            cmd = (if vgFound then vgextend else vgcreate);
            args = foldl (\<lambda>args device.
                      if DevicePath device \<noteq> [] then args @ [DevicePath device]
                      else args @ [KName device]) [name] devices
        in case exec cmd args of
             Some err \<Rightarrow> ([ExecuteCommand cmd args], Some (CreateOrExtendFailed name cmd args err))
           | None \<Rightarrow> ([ExecuteCommand cmd args], None))"

section \<open>Selecting devices through the device selector\<close>

text \<open>\<^verbatim>\<open>isDeviceAlreadyPartOfVG\<close>: is the disk a physical volume of the volume group
  that carries the spec's name?\<close>

definition isDeviceAlreadyPartOfVG :: "VolumeGroup list \<Rightarrow> string \<Rightarrow> LVMVolumeGroup \<Rightarrow> bool" where
  "isDeviceAlreadyPartOfVG vgs diskName volumeGroup =
     (\<exists>vg \<in> set vgs. vgName vg = lvgName volumeGroup \<and> (\<exists>pv \<in> set (PVs vg). pv = diskName))"

text \<open>\<^verbatim>\<open>hasExactDisk\<close>: depth-first search of the device tree for a kernel name;
  \<open>None\<close> is the \<^verbatim>\<open>false\<close> of the source.\<close>

fun hasExactDisk :: "BlockDevice list \<Rightarrow> string \<Rightarrow> BlockDevice option" where
  "hasExactDisk [] deviceName = None"
| "hasExactDisk (BlockDevice n kn dp cs # rest) deviceName =
     (if kn = deviceName then Some (BlockDevice n kn dp cs)
      else case hasExactDisk cs deviceName of
             Some device \<Rightarrow> Some device
           | None \<Rightarrow> hasExactDisk rest deviceName)"

text \<open>\<^verbatim>\<open>checkDuplicateDeviceSelectorPaths\<close>: the two maps of the source are sets of
  keys; a path already in \<open>uniquePaths\<close> goes to \<open>duplicatePaths\<close>.\<close>

definition dupStep :: "string set \<times> string set \<Rightarrow> string \<Rightarrow> string set \<times> string set" where
  "dupStep st path =
     (case st of (uniquePaths, duplicatePaths) \<Rightarrow>
        if path \<in> uniquePaths then (uniquePaths, insert path duplicatePaths)
        else (insert path uniquePaths, duplicatePaths))"

definition checkDuplicateDeviceSelectorPaths :: "DeviceSelector \<Rightarrow> error option" where
  "checkDuplicateDeviceSelectorPaths selector =
     (let st = foldl dupStep ({}, {}) (Paths selector);
          st = foldl dupStep st (OptionalPaths selector);
          duplicatePaths = snd st
      in if duplicatePaths \<noteq> {} then Some (DuplicateDevicePaths duplicatePaths) else None)"

text \<open>\<^verbatim>\<open>getValidDevice\<close>.  \<^verbatim>\<open>filepath.EvalSymlinks\<close> is the environment's
  \<open>evalSymlinks\<close>.  An empty device without error means: skip this path.\<close>

type_synonym symlinks = "string \<Rightarrow> error + string"

definition getValidDevice ::
  "symlinks \<Rightarrow> string \<Rightarrow> BlockDevice list \<Rightarrow> VolumeGroup list \<Rightarrow> LVMVolumeGroup \<Rightarrow> error + BlockDevice" where
  "getValidDevice evalSymlinks devicePath blockDevices vgs volumeGroup =
     (case evalSymlinks devicePath of
        Inl err \<Rightarrow> Inl (SymlinkNotFound devicePath err)
      | Inr diskName \<Rightarrow>
          if isDeviceAlreadyPartOfVG vgs diskName volumeGroup then Inr emptyBlockDevice
          else case hasExactDisk blockDevices diskName of
                 None \<Rightarrow> Inl (DeviceNotFound devicePath)
               | Some blockDevice \<Rightarrow>
                   Inr (BlockDevice (bdName blockDevice) (KName blockDevice) devicePath (Children blockDevice)))"

text \<open>The two loops of \<^verbatim>\<open>filterMatchingDevices\<close>.  The loop state is the list
  \<open>filteredBlockDevices\<close>, the flag \<open>devicesAlreadyInVG\<close> and the trace of symlink
  resolutions.  The loop over the required paths returns at the first error; the
  loop over the optional paths skips a path that fails.\<close>

type_synonym selection = "BlockDevice list \<times> bool \<times> event list"

fun requiredPathsLoop ::
  "symlinks \<Rightarrow> BlockDevice list \<Rightarrow> VolumeGroup list \<Rightarrow> LVMVolumeGroup \<Rightarrow> string list \<Rightarrow> selection
   \<Rightarrow> event list \<times> (error + selection)" where
  "requiredPathsLoop ev bds vgs vg [] (filtered, inVG, tr) = (tr, Inr (filtered, inVG, tr))"
| "requiredPathsLoop ev bds vgs vg (path # paths) (filtered, inVG, tr) =
     (case getValidDevice ev path bds vgs vg of
        Inl err \<Rightarrow> (tr @ [EvalSymlinks path], Inl (DeviceInvalid path err))
      | Inr blockDevice \<Rightarrow>
          if DevicePath blockDevice = []
          then requiredPathsLoop ev bds vgs vg paths (filtered, True, tr @ [EvalSymlinks path])
          else requiredPathsLoop ev bds vgs vg paths (filtered @ [blockDevice], inVG, tr @ [EvalSymlinks path]))"

fun optionalPathsLoop ::
  "symlinks \<Rightarrow> BlockDevice list \<Rightarrow> VolumeGroup list \<Rightarrow> LVMVolumeGroup \<Rightarrow> string list \<Rightarrow> selection
   \<Rightarrow> selection" where
  "optionalPathsLoop ev bds vgs vg [] st = st"
| "optionalPathsLoop ev bds vgs vg (path # paths) (filtered, inVG, tr) =
     (case getValidDevice ev path bds vgs vg of
        Inl err \<Rightarrow> optionalPathsLoop ev bds vgs vg paths (filtered, inVG, tr @ [EvalSymlinks path])
      | Inr blockDevice \<Rightarrow>
          if DevicePath blockDevice = []
          then optionalPathsLoop ev bds vgs vg paths (filtered, True, tr @ [EvalSymlinks path])
          else optionalPathsLoop ev bds vgs vg paths (filtered @ [blockDevice], inVG, tr @ [EvalSymlinks path]))"

text \<open>\<^verbatim>\<open>filterMatchingDevices\<close>: the trace of symlink resolutions and the selected
  devices, or the error.\<close>

definition filterMatchingDevices ::
  "symlinks \<Rightarrow> BlockDevice list \<Rightarrow> VolumeGroup list \<Rightarrow> LVMVolumeGroup
   \<Rightarrow> event list \<times> (error + BlockDevice list)" where
  "filterMatchingDevices ev blockDevices vgs volumeGroup =
     (case specDeviceSelector volumeGroup of
        None \<Rightarrow> ([], Inr blockDevices)
      | Some selector \<Rightarrow>
          (case checkDuplicateDeviceSelectorPaths selector of
             Some err \<Rightarrow> ([], Inl (SelectorPathsInvalid err))
           | None \<Rightarrow>
               (case requiredPathsLoop ev blockDevices vgs volumeGroup (Paths selector) ([], False, []) of
                  (tr, Inl err) \<Rightarrow> (tr, Inl err)
                | (tr, Inr st) \<Rightarrow>
                    if length (OptionalPaths selector) > 0
                    then (case optionalPathsLoop ev blockDevices vgs volumeGroup (OptionalPaths selector) st of
                            (filtered, inVG, tr') \<Rightarrow>
                              if length filtered = 0 \<and> \<not> inVG
                              then (tr', Inl AtLeastOneDeviceRequired)
                              else (tr', Inr filtered))
                    else (case st of (filtered, inVG, tr') \<Rightarrow> (tr', Inr filtered)))))"

section \<open>Wiping devices\<close>

text \<open>\<^verbatim>\<open>errors.Is\<close>: the target is the error itself or is wrapped in it.\<close>

fun errorsIs :: "error \<Rightarrow> error \<Rightarrow> bool" where
  "errorsIs (Wrap msg err) target = (Wrap msg err = target \<or> errorsIs err target)"
| "errorsIs err target = (err = target)"

text \<open>\<^verbatim>\<open>removeMapperReference\<close>: the children first, then the device itself.  The
  function returns nothing: the answer of \<^verbatim>\<open>Dmsetup.Remove\<close> only selects the log line.\<close>

type_synonym dmsetup = "string \<Rightarrow> error option"
type_synonym wipefs = "string \<Rightarrow> error option"

fun removeMapperReference :: "dmsetup \<Rightarrow> BlockDevice \<Rightarrow> event list" where
  "removeMapperReference dm (BlockDevice n kn dp cs) =
     concat (map (removeMapperReference dm) cs) @
     (case dm kn of
        Some err \<Rightarrow>
          if errorsIs err ReferenceNotFound
          then [DmsetupRemove kn (Some err),
                LogInfo ''skipping the removal of device-mapper reference as the reference does not exist'']
          else [DmsetupRemove kn (Some err), LogInfo ''failed to remove device-mapper reference'']
      | None \<Rightarrow> [DmsetupRemove kn None, LogInfo ''device-mapper reference removed successfully''])"

text \<open>\<^verbatim>\<open>wipeDevice\<close>: the loop over the devices of one level, with the flag \<open>wiped\<close>
  as loop state.  A device of that kernel name is wiped and the mapper references of its
  children are removed; any other device with children is searched recursively (a fresh
  call, whose flag starts at \<open>False\<close>).\<close>

fun wipeDeviceLoop ::
  "wipefs \<Rightarrow> dmsetup \<Rightarrow> string \<Rightarrow> BlockDevice list \<Rightarrow> bool \<Rightarrow> event list \<times> (error + bool)" where
  "wipeDeviceLoop wipe dm deviceName [] wiped = ([], Inr wiped)"
| "wipeDeviceLoop wipe dm deviceName (BlockDevice n kn dp cs # rest) wiped =
     (if kn = deviceName then
        (case wipe kn of
           Some err \<Rightarrow> ([WipefsWipe kn], Inl err)
         | None \<Rightarrow>
             (case wipeDeviceLoop wipe dm deviceName rest True of
                (tr, r) \<Rightarrow>
                  (WipefsWipe kn # LogInfo ''device wiped successfully''
                     # concat (map (removeMapperReference dm) cs) @ tr, r)))
      else if length cs > 0 then
        (case wipeDeviceLoop wipe dm deviceName cs False of
           (trc, Inl err) \<Rightarrow> (trc, Inl err)
         | (trc, Inr childWiped) \<Rightarrow>
             (case wipeDeviceLoop wipe dm deviceName rest (if childWiped then True else wiped) of
                (tr, r) \<Rightarrow> (trc @ tr, r)))
      else wipeDeviceLoop wipe dm deviceName rest wiped)"

definition wipeDevice ::
  "wipefs \<Rightarrow> dmsetup \<Rightarrow> string \<Rightarrow> BlockDevice list \<Rightarrow> event list \<times> (error + bool)" where
  "wipeDevice wipe dm deviceName blockDevices = wipeDeviceLoop wipe dm deviceName blockDevices False"

text \<open>The two loops of \<^verbatim>\<open>wipeDevicesIfNecessary\<close>.  \<open>claimed\<close> is the
  \<^verbatim>\<open>isDeviceAlreadyPartOfVG(nodeStatus, path, volumeGroup)\<close> of the package, which is
  defined in another file: it is a parameter.  A failed wipe of a required path
  returns the error; a failed wipe of an optional path is logged.  The logger does not
  format its message: the line logged is the literal \<^verbatim>\<open>failed to wipe device %s: %w\<close>, the
  path and the error being handed over as a key and its value.  A log line is recorded by
  its message.\<close>

fun wipeRequiredLoop ::
  "wipefs \<Rightarrow> dmsetup \<Rightarrow> (string \<Rightarrow> bool) \<Rightarrow> BlockDevice list \<Rightarrow> string list \<Rightarrow> bool
   \<Rightarrow> event list \<times> (error + bool)" where
  "wipeRequiredLoop wipe dm claimed bds [] wiped = ([], Inr wiped)"
| "wipeRequiredLoop wipe dm claimed bds (path # paths) wiped =
     (if claimed path then wipeRequiredLoop wipe dm claimed bds paths wiped
      else case wipeDevice wipe dm path bds of
             (trd, Inl err) \<Rightarrow> (trd, Inl (Wrap (''failed to wipe device '' @ path) err))
           | (trd, Inr deviceWiped) \<Rightarrow>
               (case wipeRequiredLoop wipe dm claimed bds paths (if deviceWiped then True else wiped) of
                  (tr, r) \<Rightarrow> (trd @ tr, r)))"

fun wipeOptionalLoop ::
  "wipefs \<Rightarrow> dmsetup \<Rightarrow> (string \<Rightarrow> bool) \<Rightarrow> BlockDevice list \<Rightarrow> string list \<Rightarrow> bool
   \<Rightarrow> event list \<times> bool" where
  "wipeOptionalLoop wipe dm claimed bds [] wiped = ([], wiped)"
| "wipeOptionalLoop wipe dm claimed bds (path # paths) wiped =
     (if claimed path then wipeOptionalLoop wipe dm claimed bds paths wiped
      else case wipeDevice wipe dm path bds of
             (trd, Inl err) \<Rightarrow>
               (case wipeOptionalLoop wipe dm claimed bds paths wiped of
                  (tr, w) \<Rightarrow> (trd @ LogInfo ''failed to wipe device %s: %w'' # tr, w))
           | (trd, Inr deviceWiped) \<Rightarrow>
               (case wipeOptionalLoop wipe dm claimed bds paths (if deviceWiped then True else wiped) of
                  (tr, w) \<Rightarrow> (trd @ tr, w)))"

definition wipeDevicesIfNecessary ::
  "wipefs \<Rightarrow> dmsetup \<Rightarrow> (string \<Rightarrow> bool) \<Rightarrow> LVMVolumeGroup \<Rightarrow> BlockDevice list
   \<Rightarrow> event list \<times> (error + bool)" where
  "wipeDevicesIfNecessary wipe dm claimed volumeGroup blockDevices =
     (case specDeviceSelector volumeGroup of
        None \<Rightarrow> ([], Inr False)
      | Some selector \<Rightarrow>
          (case ForceWipeDevicesAndDestroyAllData selector of
             None \<Rightarrow> ([], Inr False)
           | Some force \<Rightarrow>
               if \<not> force then ([], Inr False)
               else (case wipeRequiredLoop wipe dm claimed blockDevices (Paths selector) False of
                       (tr, Inl err) \<Rightarrow> (tr, Inl err)
                     | (tr, Inr wiped) \<Rightarrow>
                         (case wipeOptionalLoop wipe dm claimed blockDevices (OptionalPaths selector) wiped of
                            (tr', wiped') \<Rightarrow> (tr @ tr', Inr wiped')))))"

section \<open>Floating-point sizes\<close>

text \<open>The sizes reported by LVM are parsed by \<^verbatim>\<open>strconv.ParseFloat\<close> into \<^verbatim>\<open>float64\<close>, and
  the fill percent is computed in \<^verbatim>\<open>float64\<close>.  A \<^verbatim>\<open>float64\<close> is a finite binary64 number
  (held as the rational it denotes; \<open>Finite 0\<close> is \<open>+0\<close>), \<open>-0\<close>, an infinity or a NaN.
  Division and multiplication are the exact operation followed by rounding to the nearest
  binary64 number, ties to even (IEEE 754, the only rounding mode of Go).\<close>

datatype f64 = Finite rat | NegZero | PosInf | NegInf | NaN

definition pow2 :: "int \<Rightarrow> rat" where
  "pow2 e = (if 0 \<le> e then 2 ^ nat e else 1 / 2 ^ nat (- e))"

text \<open>The binary exponent of a positive rational: \<open>2 ^ floorLog2 a \<le> a < 2 ^ (floorLog2 a + 1)\<close>.\<close>

definition floorLog2 :: "rat \<Rightarrow> int" where
  "floorLog2 a = (if 1 \<le> a then bitlen \<lfloor>a\<rfloor> - 1 else - bitlen (\<lceil>1 / a\<rceil> - 1))"

definition roundHalfEven :: "rat \<Rightarrow> int" where
  "roundHalfEven x =
     (let f = \<lfloor>x\<rfloor>; d = x - of_int f
      in if d < 1 / 2 then f else if 1 / 2 < d then f + 1 else if even f then f else f + 1)"

definition signedZero :: "bool \<Rightarrow> f64" where
  "signedZero neg = (if neg then NegZero else Finite 0)"

definition signedInf :: "bool \<Rightarrow> f64" where
  "signedInf neg = (if neg then NegInf else PosInf)"

text \<open>Rounding of a nonzero exact result: 53 significant bits, exponents from \<open>-1022\<close>
  (below that the numbers are subnormal and the spacing stays \<open>2 ^ -1074\<close>), overflow to
  an infinity from \<open>2 ^ 1024\<close> on.\<close>

definition roundF64 :: "rat \<Rightarrow> f64" where
  "roundF64 q =
     (if q = 0 then Finite 0
      else let a = \<bar>q\<bar>;
               e = max (floorLog2 a) (- 1022);
               ulp = pow2 (e - 52);
               r = of_int (roundHalfEven (a / ulp)) * ulp
           in if pow2 1024 \<le> r then signedInf (q < 0)
              else if r = 0 then signedZero (q < 0)
              else Finite (if q < 0 then - r else r))"

definition isNaN :: "f64 \<Rightarrow> bool" where
  "isNaN x = (x = NaN)"

definition isInf :: "f64 \<Rightarrow> bool" where
  "isInf x = (x = PosInf \<or> x = NegInf)"

definition isZero :: "f64 \<Rightarrow> bool" where
  "isZero x = (x = Finite 0 \<or> x = NegZero)"

fun signBit :: "f64 \<Rightarrow> bool" where
  "signBit (Finite r) = (r < 0)"
| "signBit NegZero = True"
| "signBit PosInf = False"
| "signBit NegInf = True"
| "signBit NaN = False"

fun valueOf :: "f64 \<Rightarrow> rat" where
  "valueOf (Finite r) = r"
| "valueOf x = 0"

definition fdiv :: "f64 \<Rightarrow> f64 \<Rightarrow> f64" where
  "fdiv x y =
     (if isNaN x \<or> isNaN y then NaN
      else if isInf x then (if isInf y then NaN else signedInf (signBit x \<noteq> signBit y))
      else if isInf y then signedZero (signBit x \<noteq> signBit y)
      else if isZero y then (if isZero x then NaN else signedInf (signBit x \<noteq> signBit y))
      else if isZero x then signedZero (signBit x \<noteq> signBit y)
      else roundF64 (valueOf x / valueOf y))"

definition fmul :: "f64 \<Rightarrow> f64 \<Rightarrow> f64" where
  "fmul x y =
     (if isNaN x \<or> isNaN y then NaN
      else if isInf x \<or> isInf y
        then (if isZero x \<or> isZero y then NaN else signedInf (signBit x \<noteq> signBit y))
      else if isZero x \<or> isZero y then signedZero (signBit x \<noteq> signBit y)
      else roundF64 (valueOf x * valueOf y))"

text \<open>\<open>x > y\<close> on \<^verbatim>\<open>float64\<close>: false when either side is a NaN.\<close>

fun extended :: "f64 \<Rightarrow> rat + bool" where
  "extended (Finite r) = Inl r"
| "extended NegZero = Inl 0"
| "extended PosInf = Inr True"
| "extended NegInf = Inr False"
| "extended NaN = Inl 0"

definition fgt :: "f64 \<Rightarrow> f64 \<Rightarrow> bool" where
  "fgt x y =
     (if isNaN x \<or> isNaN y then False
      else case (extended x, extended y) of
             (Inl a, Inl b) \<Rightarrow> b < a
           | (Inr a, Inl b) \<Rightarrow> a
           | (Inl a, Inr b) \<Rightarrow> \<not> b
           | (Inr a, Inr b) \<Rightarrow> a \<and> \<not> b)"

text \<open>\<^verbatim>\<open>int(x)\<close>: truncation toward zero.  When the \<^verbatim>\<open>int\<close> (64 bits) cannot represent the
  value, the result is implementation-dependent in Go: it is the parameter \<open>impl\<close>.\<close>

definition toInt :: "(f64 \<Rightarrow> int) \<Rightarrow> f64 \<Rightarrow> int" where
  "toInt impl x =
     (case x of
        Finite r \<Rightarrow>
          (let t = (if 0 \<le> r then \<lfloor>r\<rfloor> else \<lceil>r\<rceil>)
           in if - (2 ^ 63) \<le> t \<and> t < 2 ^ 63 then t else impl x)
      | NegZero \<Rightarrow> 0
      | _ \<Rightarrow> impl x)"

section \<open>The host\<close>

text \<open>Logical volumes as reported by \<^verbatim>\<open>ListLVs\<close>: a list of reports, each a list of
  logical volumes.  \<^verbatim>\<open>ParsedLvAttr\<close> is defined in another file; its answer is a
  parameter, and of the parsed attributes only the volume type and the state are used.\<close>

record LogicalVolume =
  lvName :: string
  LvAttr :: string
  LvSize :: string
  MetadataPercent :: string

type_synonym lvReport = "LogicalVolume list list"

datatype VolumeType = VolumeTypeThinPool | VolumeTypeOther string

datatype State = StateActive | StateOther string

record LvAttrParsed =
  VolumeType :: VolumeType
  State :: State

text \<open>The answers of the host and of the API server during one pass, one field for every
  call site (a call site is reached at most once in a pass); the wipe step calls
  \<^verbatim>\<open>Wipefs.Wipe\<close> and \<^verbatim>\<open>Dmsetup.Remove\<close> in loops, their answers depend on the device name.
  \<open>getNewDevicesToBeAdded\<close>, \<open>filterDevices\<close>, the three status setters,
  \<open>removeVolumeGroupStatus\<close> and \<open>alreadyInStatus\<close> (the \<^verbatim>\<open>isDeviceAlreadyPartOfVG\<close> on the
  node status) are functions of the manager that are defined in other files: their
  results are parameters as well.  \<open>cmpEqual\<close> is \<^verbatim>\<open>cmp.Equal\<close>.\<close>

record host =
  defaultLVMdSocket :: string
  clientUpdate :: "error option"
  lvmdLoad :: "error + LvmdConfig option"
  lvmdSave :: "LvmdConfig \<Rightarrow> error option"
  lvmdDelete :: "error option"
  cmpEqual :: "LvmdConfig \<Rightarrow> LvmdConfig \<Rightarrow> bool"
  listBlockDevices :: "error + BlockDevice list"
  listBlockDevicesAfterWipe :: "error + BlockDevice list"
  wipefsWipe :: wipefs
  dmsetupRemove :: dmsetup
  alreadyInStatus :: "string \<Rightarrow> bool"
  getNewDevicesToBeAdded :: "BlockDevice list \<Rightarrow> error + BlockDevice list"
  filterDevices :: "BlockDevice list \<Rightarrow> BlockDevice list"
  listVGs :: "error + VolumeGroup list"
  executeCommand :: executor
  listLVs :: "string \<Rightarrow> error + lvReport"
  listLVsValidate :: "string \<Rightarrow> error + lvReport"
  parsedLvAttr :: "string \<Rightarrow> error + LvAttrParsed"
  parseFloat :: "string \<Rightarrow> nat \<Rightarrow> error + f64"
  intOfUnrepresentable :: "f64 \<Rightarrow> int"
  getVG :: "string \<Rightarrow> error + VolumeGroup"
  lvExists :: "string \<Rightarrow> string \<Rightarrow> error + bool"
  createLV :: "string \<Rightarrow> string \<Rightarrow> int \<Rightarrow> error option"
  extendLV :: "string \<Rightarrow> string \<Rightarrow> int \<Rightarrow> error option"
  deleteLV :: "string \<Rightarrow> string \<Rightarrow> error option"
  deleteVG :: "VolumeGroup \<Rightarrow> error option"
  setVolumeGroupProgressingStatus :: "error + bool"
  setVolumeGroupReadyStatus :: "error + bool"
  removeVolumeGroupStatus :: "error option"

text \<open>A step of a function that returns an \<^verbatim>\<open>error\<close>: the rest runs only when the step
  returned \<^verbatim>\<open>nil\<close>, and the traces are joined.\<close>

definition andThen ::
  "event list \<times> error option \<Rightarrow> event list \<times> error option \<Rightarrow> event list \<times> error option" where
  "andThen step rest =
     (case step of
        (tr, Some err) \<Rightarrow> (tr, Some err)
      | (tr, None) \<Rightarrow> (tr @ fst rest, snd rest))"

section \<open>Thin pool\<close>

text \<open>A panic unwinds the callers: it is passed on as it is, and no later statement of a
  caller runs.  \<open>SliceOutOfRange\<close> is the panic of \<^verbatim>\<open>s[:len(s)-1]\<close> on an empty string,
  \<open>NilThinPoolConfig\<close> that of \<^verbatim>\<open>config.Name\<close> on a \<^verbatim>\<open>nil\<close> config.\<close>

definition isPanic :: "error \<Rightarrow> bool" where
  "isPanic err = (err = SliceOutOfRange \<or> err = NilThinPoolConfig)"

text \<open>\<^verbatim>\<open>extendThinPool\<close>.\<close>

definition extendThinPool :: "host \<Rightarrow> string \<Rightarrow> string \<Rightarrow> ThinPoolConfig \<Rightarrow> event list \<times> error option" where
  "extendThinPool h vgName' lvSize config =
     (case getVG h vgName' of
        Inl err \<Rightarrow>
          if err \<noteq> VolumeGroupNotFound
          then ([GetVG vgName'], Some (Wrap ''failed to get volume group'' err))
          else ([GetVG vgName'], None)
      | Inr vg \<Rightarrow>
          if lvSize = [] then ([GetVG vgName'], Some SliceOutOfRange)
          else case parseFloat h (butlast lvSize) 64 of
            Inl err \<Rightarrow> ([GetVG vgName'], Some (Wrap ''failed to parse lvSize'' err))
          | Inr thinPoolSize \<Rightarrow>
              if VgSize vg = [] then ([GetVG vgName'], Some SliceOutOfRange)
              else case parseFloat h (butlast (VgSize vg)) 64 of
                Inl err \<Rightarrow> ([GetVG vgName'], Some (Wrap ''failed to parse vgSize'' err))
              | Inr vgSize \<Rightarrow>
                  if SizePercent config
                       \<le> toInt (intOfUnrepresentable h) (fmul (fdiv thinPoolSize vgSize) (Finite 100))
                  then ([GetVG vgName'], None)
                  else case extendLV h (tpName config) vgName' (SizePercent config) of
                         Some err \<Rightarrow>
                           ([GetVG vgName', ExtendLV (tpName config) vgName' (SizePercent config)],
                            Some (Wrap ''failed to extend thinpool'' err))
                       | None \<Rightarrow>
                           ([GetVG vgName', ExtendLV (tpName config) vgName' (SizePercent config)], None))"

text \<open>\<^verbatim>\<open>addThinPoolToVG\<close>.  The first logical volume of the configured name decides; a
  \<^verbatim>\<open>nil\<close> config panics at \<^verbatim>\<open>config.Name\<close>.\<close>

definition addThinPoolToVG :: "host \<Rightarrow> string \<Rightarrow> ThinPoolConfig option \<Rightarrow> event list \<times> error option" where
  "addThinPoolToVG h vgName' config' =
     (case config' of
        None \<Rightarrow> ([], Some NilThinPoolConfig)
      | Some config \<Rightarrow>
          (case listLVs h vgName' of
             Inl err \<Rightarrow> ([ListLVs vgName'], Some (Wrap ''failed to list logical volumes in the volume group'' err))
           | Inr report \<Rightarrow>
               (case find (\<lambda>lv. lvName lv = tpName config) (concat report) of
                  Some lv \<Rightarrow>
                    (case parsedLvAttr h (LvAttr lv) of
                       Inl err \<Rightarrow>
                         ([ListLVs vgName'],
                          Some (Wrap ''could not parse lvattr to determine if thin pool exists'' err))
                     | Inr lvAttr \<Rightarrow>
                         if VolumeType lvAttr = VolumeTypeThinPool
                         then (case extendThinPool h vgName' (LvSize lv) config of
                                 (tr, Some err) \<Rightarrow>
                                   (ListLVs vgName' # tr,
                                    Some (if isPanic err then err
                                          else Wrap ''failed to extend the lvm thinpool'' err))
                               | (tr, None) \<Rightarrow> (ListLVs vgName' # tr, None))
                         else ([ListLVs vgName'], Some (NotAThinPool (tpName config))))
                | None \<Rightarrow>
                    (case createLV h (tpName config) vgName' (SizePercent config) of
                       Some err \<Rightarrow>
                         ([ListLVs vgName', CreateLV (tpName config) vgName' (SizePercent config)],
                          Some (Wrap ''failed to create thinpool'' err))
                     | None \<Rightarrow>
                         ([ListLVs vgName', CreateLV (tpName config) vgName' (SizePercent config)], None)))))"

section \<open>Validation of the logical volumes\<close>

definition metadataWarningPercentage :: f64 where
  "metadataWarningPercentage = Finite 95"

text \<open>The inner loop of \<^verbatim>\<open>validateLVs\<close> over the logical volumes of one report, with the
  flag \<open>thinPoolExists\<close>; and the outer loop over the reports.\<close>

fun validateLvLoop :: "host \<Rightarrow> string \<Rightarrow> LogicalVolume list \<Rightarrow> bool \<Rightarrow> error option" where
  "validateLvLoop h poolName [] thinPoolExists =
     (if \<not> thinPoolExists then Some ThinPoolMissing else None)"
| "validateLvLoop h poolName (lv # lvs) thinPoolExists =
     (if lvName lv \<noteq> poolName then validateLvLoop h poolName lvs thinPoolExists
      else case parsedLvAttr h (LvAttr lv) of
        Inl err \<Rightarrow> Some (Wrap ''could not parse lv_attr from logical volume'' err)
      | Inr lvAttr \<Rightarrow>
          if VolumeType lvAttr \<noteq> VolumeTypeThinPool then Some (NotAThinPool (lvName lv))
          else if State lvAttr \<noteq> StateActive then Some (LVInactive (lvName lv))
          else case parseFloat h (MetadataPercent lv) 32 of
            Inl err \<Rightarrow> Some (Wrap ''could not ensure metadata percentage of LV due to a parsing error'' err)
          | Inr metadataPercentage \<Rightarrow>
              if fgt metadataPercentage metadataWarningPercentage
              then Some (MetadataOverflow (MetadataPercent lv))
              else validateLvLoop h poolName lvs True)"

fun validateReportLoop :: "host \<Rightarrow> string \<Rightarrow> lvReport \<Rightarrow> error option" where
  "validateReportLoop h poolName [] = None"
| "validateReportLoop h poolName (report # reports) =
     (if length report < 1 then Some NoLVInReport
      else case validateLvLoop h poolName report False of
             Some err \<Rightarrow> Some err
           | None \<Rightarrow> validateReportLoop h poolName reports)"

definition validateLVs :: "host \<Rightarrow> LVMVolumeGroup \<Rightarrow> event list \<times> error option" where
  "validateLVs h volumeGroup =
     (case specThinPoolConfig volumeGroup of
        None \<Rightarrow> ([], None)
      | Some config \<Rightarrow>
          (case listLVsValidate h (lvgName volumeGroup) of
             Inl err \<Rightarrow>
               ([ListLVs (lvgName volumeGroup)],
                Some (Wrap ''could not get logical volumes found inside volume group'' err))
           | Inr report \<Rightarrow>
               if length report < 1 then ([ListLVs (lvgName volumeGroup)], Some LVReportEmpty)
               else ([ListLVs (lvgName volumeGroup)], validateReportLoop h (tpName config) report)))"

section \<open>Deletion\<close>

text \<open>The loop of \<^verbatim>\<open>processDelete\<close> over the device classes: the first class of that name
  is removed, then the loop breaks.\<close>

fun removeDeviceClass :: "string \<Rightarrow> DeviceClass list \<Rightarrow> DeviceClass list" where
  "removeDeviceClass name [] = []"
| "removeDeviceClass name (deviceClass # rest) =
     (if dcName deviceClass = name then rest else deviceClass # removeDeviceClass name rest)"

text \<open>The teardown on the host, for a volume group that \<^verbatim>\<open>GetVG\<close> found.\<close>

definition deleteThinPool :: "host \<Rightarrow> LVMVolumeGroup \<Rightarrow> event list \<times> error option" where
  "deleteThinPool h volumeGroup =
     (case specThinPoolConfig volumeGroup of
        None \<Rightarrow> ([], None)
      | Some config \<Rightarrow>
          (case lvExists h (tpName config) (lvgName volumeGroup) of
             Inl err \<Rightarrow>
               ([LVExists (tpName config) (lvgName volumeGroup)],
                Some (Wrap ''failed to check existence of thin pool'' err))
           | Inr thinPoolExists \<Rightarrow>
               if thinPoolExists
               then (case deleteLV h (tpName config) (lvgName volumeGroup) of
                       Some err \<Rightarrow>
                         ([LVExists (tpName config) (lvgName volumeGroup),
                           DeleteLV (tpName config) (lvgName volumeGroup), SetStatus Failed],
                          Some (Wrap ''failed to delete thin pool'' err))
                     | None \<Rightarrow>
                         ([LVExists (tpName config) (lvgName volumeGroup),
                           DeleteLV (tpName config) (lvgName volumeGroup)], None))
               else ([LVExists (tpName config) (lvgName volumeGroup)], None)))"

definition deleteVolumeGroup :: "host \<Rightarrow> VolumeGroup \<Rightarrow> event list \<times> error option" where
  "deleteVolumeGroup h vg =
     (case deleteVG h vg of
        Some err \<Rightarrow> ([DeleteVG vg, SetStatus Failed], Some (Wrap ''failed to delete volume group'' err))
      | None \<Rightarrow> ([DeleteVG vg], None))"

definition teardown :: "host \<Rightarrow> LVMVolumeGroup \<Rightarrow> event list \<times> error option" where
  "teardown h volumeGroup =
     (case getVG h (lvgName volumeGroup) of
        Inl err \<Rightarrow>
          if err \<noteq> VolumeGroupNotFound
          then ([GetVG (lvgName volumeGroup)], Some (Wrap ''failed to get volume group'' err))
          else ([GetVG (lvgName volumeGroup)], None)
      | Inr vg \<Rightarrow>
          andThen ([GetVG (lvgName volumeGroup)], None)
            (andThen (deleteThinPool h volumeGroup) (deleteVolumeGroup h vg)))"

text \<open>The lvmd config is saved when device classes remain and deleted otherwise; nothing
  is done when there was no config file.\<close>

definition updateRegistry :: "host \<Rightarrow> LvmdConfig option \<Rightarrow> event list \<times> error option" where
  "updateRegistry h lvmdConfig' =
     (case lvmdConfig' of
        None \<Rightarrow> ([], None)
      | Some lvmdConfig \<Rightarrow>
          if length (DeviceClasses lvmdConfig) > 0
          then (case lvmdSave h lvmdConfig of
                  Some err \<Rightarrow> ([LvmdSave lvmdConfig], Some (Wrap ''failed to update lvmd.conf file'' err))
                | None \<Rightarrow> ([LvmdSave lvmdConfig], None))
          else (case lvmdDelete h of
                  Some err \<Rightarrow> ([LvmdDelete], Some (Wrap ''failed to delete lvmd.conf file'' err))
                | None \<Rightarrow> ([LvmdDelete], None)))"

definition removeStatus :: "host \<Rightarrow> event list \<times> error option" where
  "removeStatus h =
     (case removeVolumeGroupStatus h of
        Some err \<Rightarrow> ([RemoveStatus], Some (Wrap ''failed to remove status'' err))
      | None \<Rightarrow> ([RemoveStatus], None))"

definition removeFinalizer :: "host \<Rightarrow> LVMVolumeGroup \<Rightarrow> event list \<times> error option" where
  "removeFinalizer h volumeGroup =
     (if finalizerPresent volumeGroup then ([UpdateFinalizerRemoved], clientUpdate h) else ([], None))"

text \<open>\<^verbatim>\<open>processDelete\<close>.\<close>

definition processDelete :: "host \<Rightarrow> LVMVolumeGroup \<Rightarrow> event list \<times> error option" where
  "processDelete h volumeGroup =
     (case lvmdLoad h of
        Inl err \<Rightarrow> ([LvmdLoad], Some (Wrap ''failed to read the lvmd config file'' err))
      | Inr loaded \<Rightarrow>
          (let lvmdConfig =
                 (case loaded of
                    None \<Rightarrow> None
                  | Some config \<Rightarrow>
                      Some (config\<lparr>DeviceClasses :=
                              removeDeviceClass (lvgName volumeGroup) (DeviceClasses config)\<rparr>))
           in andThen ([LvmdLoad], None)
                (andThen (teardown h volumeGroup)
                   (andThen (updateRegistry h lvmdConfig)
                      (andThen (removeStatus h) (removeFinalizer h volumeGroup))))))"

section \<open>The reconcile pass\<close>

text \<open>What a pass asks of the work queue: nothing, an immediate requeue, or the requeue
  after the fixed interval (\<^verbatim>\<open>reconcileAgain\<close>).\<close>

datatype requeue = NoRequeue | RequeueNow | RequeueAfterInterval

type_synonym passResult = "event list \<times> requeue \<times> error option"

text \<open>The device class added for the volume group.\<close>

definition newDeviceClass :: "LVMVolumeGroup \<Rightarrow> DeviceClass" where
  "newDeviceClass volumeGroup =
     (case specThinPoolConfig volumeGroup of
        None \<Rightarrow>
          \<lparr>dcName = lvgName volumeGroup, dcVolumeGroup = lvgName volumeGroup,
           dcDefault = specDefault volumeGroup, dcType = TypeUnset,
           dcThinPoolConfig = \<lparr>ltpName = [], ltpOverprovisionRatio = 0\<rparr>\<rparr>
      | Some config \<Rightarrow>
          \<lparr>dcName = lvgName volumeGroup, dcVolumeGroup = lvgName volumeGroup,
           dcDefault = specDefault volumeGroup, dcType = TypeThin,
           dcThinPoolConfig = \<lparr>ltpName = tpName config,
                               ltpOverprovisionRatio = OverprovisionRatio config\<rparr>\<rparr>)"

definition setReady :: "host \<Rightarrow> passResult" where
  "setReady h =
     (case setVolumeGroupReadyStatus h of
        Inl err \<Rightarrow> ([SetStatus Ready], NoRequeue, Some (Wrap ''failed to set status for volume group to ready'' err))
      | Inr updated \<Rightarrow> ([SetStatus Ready], RequeueAfterInterval, None))"

text \<open>The end of a pass that added devices: the device class is appended to the lvmd
  config if none of that name is there, the config is saved if \<^verbatim>\<open>cmp.Equal\<close> tells it from
  the loaded one, and the status is set to ready.\<close>

definition syncRegistry :: "host \<Rightarrow> LVMVolumeGroup \<Rightarrow> LvmdConfig \<Rightarrow> passResult" where
  "syncRegistry h volumeGroup existingLvmdConfig =
     (let found = (\<exists>deviceClass \<in> set (DeviceClasses existingLvmdConfig).
                      dcName deviceClass = lvgName volumeGroup);
          lvmdConfig =
            (if \<not> found
             then existingLvmdConfig\<lparr>DeviceClasses :=
                    DeviceClasses existingLvmdConfig @ [newDeviceClass volumeGroup]\<rparr>
             else existingLvmdConfig)
      in if \<not> cmpEqual h existingLvmdConfig lvmdConfig
         then (case lvmdSave h lvmdConfig of
                 Some err \<Rightarrow>
                   ([LvmdSave lvmdConfig, SetStatus Failed], NoRequeue,
                    Some (Wrap ''failed to update lvmd config file'' err))
               | None \<Rightarrow>
                   (case setReady h of (tr, res) \<Rightarrow> (LvmdSave lvmdConfig # tr, res)))
         else setReady h)"

text \<open>A failed step of the pass sets the status to failed and returns the error; a panic
  is passed on.\<close>

definition failed :: "event list \<Rightarrow> string \<Rightarrow> error \<Rightarrow> passResult" where
  "failed tr msg err =
     (if isPanic err then (tr, NoRequeue, Some err)
      else (tr @ [SetStatus Failed], NoRequeue, Some (Wrap msg err)))"

text \<open>The pass from \<^verbatim>\<open>addDevicesToVG\<close> on.\<close>

definition createOrExtend ::
  "host \<Rightarrow> LVMVolumeGroup \<Rightarrow> VolumeGroup list \<Rightarrow> BlockDevice list \<Rightarrow> LvmdConfig \<Rightarrow> passResult" where
  "createOrExtend h volumeGroup vgs available existingLvmdConfig =
     (case addDevicesToVG (executeCommand h) vgs (lvgName volumeGroup) available of
        (tr1, Some err) \<Rightarrow> failed tr1 ''failed to create/extend volume group'' err
      | (tr1, None) \<Rightarrow>
          (case addThinPoolToVG h (lvgName volumeGroup) (specThinPoolConfig volumeGroup) of
             (tr2, Some err) \<Rightarrow> failed (tr1 @ tr2) ''failed to create thin pool'' err
           | (tr2, None) \<Rightarrow>
               (case validateLVs h volumeGroup of
                  (tr3, Some err) \<Rightarrow>
                    failed (tr1 @ tr2 @ tr3) ''error while validating logical volumes in existing volume group'' err
                | (tr3, None) \<Rightarrow>
                    (case syncRegistry h volumeGroup existingLvmdConfig of
                       (tr4, res) \<Rightarrow> (tr1 @ tr2 @ tr3 @ tr4, res)))))"

text \<open>The pass from the list of volume groups on.  Without available devices the volume
  group must exist and is validated again.  With available devices the status is set to
  progressing; when that changed the status, the pass ends with an immediate requeue; when
  it failed, the failure is logged and the pass goes on.\<close>

definition reconcileDevices ::
  "host \<Rightarrow> LVMVolumeGroup \<Rightarrow> VolumeGroup list \<Rightarrow> BlockDevice list \<Rightarrow> LvmdConfig \<Rightarrow> passResult" where
  "reconcileDevices h volumeGroup vgs available existingLvmdConfig =
     (let vgExistsInLVM = (\<exists>vg \<in> set vgs. lvgName volumeGroup = vgName vg \<and> length (PVs vg) > 0)
      in if length available = 0 then
           (if \<not> vgExistsInLVM
            then ([SetStatus Failed], NoRequeue, Some (NoAvailableDevices (lvgName volumeGroup)))
            else case validateLVs h volumeGroup of
                   (tr, Some err) \<Rightarrow>
                     failed tr ''error while validating logical volumes in existing volume group'' err
                 | (tr, None) \<Rightarrow> (case setReady h of (tr', res) \<Rightarrow> (tr @ tr', res)))
         else
           (case setVolumeGroupProgressingStatus h of
              Inr True \<Rightarrow> ([SetStatus Progressing], RequeueNow, None)
            | _ \<Rightarrow>
                (case createOrExtend h volumeGroup vgs available existingLvmdConfig of
                   (tr, res) \<Rightarrow> (SetStatus Progressing # tr, res))))"

text \<open>The pass from the selection of the new devices on.\<close>

definition selectAndReconcile ::
  "host \<Rightarrow> LVMVolumeGroup \<Rightarrow> BlockDevice list \<Rightarrow> LvmdConfig \<Rightarrow> passResult" where
  "selectAndReconcile h volumeGroup blockDevices existingLvmdConfig =
     (case getNewDevicesToBeAdded h blockDevices of
        Inl err \<Rightarrow>
          ([GetNewDevices], NoRequeue,
           Some (Wrap ''failed to get matching available block devices for volumegroup'' err))
      | Inr newDevices \<Rightarrow>
          (case listVGs h of
             Inl err \<Rightarrow> ([GetNewDevices, ListVGs], NoRequeue, Some (Wrap ''failed to list volume groups'' err))
           | Inr vgs \<Rightarrow>
               (case reconcileDevices h volumeGroup vgs (filterDevices h newDevices) existingLvmdConfig of
                  (tr, res) \<Rightarrow> (GetNewDevices # ListVGs # tr, res))))"

text \<open>\<^verbatim>\<open>reconcile\<close>: deletion, the finalizer, the lvmd config, the block devices, the wipe
  and a second listing after a wipe.\<close>

definition reconcile :: "host \<Rightarrow> LVMVolumeGroup \<Rightarrow> passResult" where
  "reconcile h volumeGroup =
     (if deletionRequested volumeGroup
      then (case processDelete h volumeGroup of (tr, err) \<Rightarrow> (tr, NoRequeue, err))
      else if \<not> finalizerPresent volumeGroup
      then ([UpdateFinalizerAdded], NoRequeue, clientUpdate h)
      else case lvmdLoad h of
        Inl err \<Rightarrow>
          ([LvmdLoad, SetStatus Failed], NoRequeue, Some (Wrap ''failed to read the lvmd config file'' err))
      | Inr loaded \<Rightarrow>
          (let existingLvmdConfig =
                 (case loaded of
                    None \<Rightarrow> \<lparr>SocketName = defaultLVMdSocket h, DeviceClasses = []\<rparr>
                  | Some config \<Rightarrow> config)
           in case listBlockDevices h of
                Inl err \<Rightarrow>
                  ([LvmdLoad, ListBlockDevices], NoRequeue, Some (Wrap ''failed to list block devices'' err))
              | Inr blockDevices \<Rightarrow>
                  (case wipeDevicesIfNecessary (wipefsWipe h) (dmsetupRemove h) (alreadyInStatus h)
                          volumeGroup blockDevices of
                     (trw, Inl err) \<Rightarrow>
                       ([LvmdLoad, ListBlockDevices] @ trw, NoRequeue, Some (Wrap ''failed to wipe devices'' err))
                   | (trw, Inr wiped) \<Rightarrow>
                       if wiped
                       then (case listBlockDevicesAfterWipe h of
                               Inl err \<Rightarrow>
                                 ([LvmdLoad, ListBlockDevices] @ trw @ [ListBlockDevices], NoRequeue,
                                  Some (Wrap ''failed to list block devices'' err))
                             | Inr blockDevices' \<Rightarrow>
                                 (case selectAndReconcile h volumeGroup blockDevices' existingLvmdConfig of
                                    (tr, res) \<Rightarrow>
                                      ([LvmdLoad, ListBlockDevices] @ trw @ [ListBlockDevices] @ tr, res)))
                       else (case selectAndReconcile h volumeGroup blockDevices existingLvmdConfig of
                               (tr, res) \<Rightarrow> ([LvmdLoad, ListBlockDevices] @ trw @ tr, res)))))"

section \<open>Notions used to state the properties\<close>

text \<open>A volume group of that name is in the supplied list.\<close>

definition vgPresent :: "VolumeGroup list \<Rightarrow> string \<Rightarrow> bool" where
  "vgPresent vgs name = (\<exists>vg \<in> set vgs. vgName vg = name)"

text \<open>The argument vector of the create or extend command: the group name, then for every device its
  \<^verbatim>\<open>DevicePath\<close>, or its kernel name when no \<^verbatim>\<open>DevicePath\<close> is set.\<close>

definition deviceArgs :: "string \<Rightarrow> BlockDevice list \<Rightarrow> string list" where
  "deviceArgs name devices =
     name # map (\<lambda>d. if DevicePath d \<noteq> [] then DevicePath d else KName d) devices"

text \<open>The paths that occur more than once in the required and optional paths taken together.\<close>

definition duplicatedPaths :: "DeviceSelector \<Rightarrow> string set" where
  "duplicatedPaths selector =
     {p \<in> set (Paths selector @ OptionalPaths selector).
        2 \<le> count_list (Paths selector @ OptionalPaths selector) p}"

text \<open>The path resolves to a disk that is a physical volume of the target volume group.\<close>

definition pathAlreadyInVG :: "symlinks \<Rightarrow> VolumeGroup list \<Rightarrow> LVMVolumeGroup \<Rightarrow> string \<Rightarrow> bool" where
  "pathAlreadyInVG ev vgs vg p =
     (case ev p of Inl err \<Rightarrow> False | Inr diskName \<Rightarrow> isDeviceAlreadyPartOfVG vgs diskName vg)"

text \<open>The path resolves to a disk that is not yet claimed and is found in the device tree.\<close>

definition pathResolves ::
  "symlinks \<Rightarrow> BlockDevice list \<Rightarrow> VolumeGroup list \<Rightarrow> LVMVolumeGroup \<Rightarrow> string \<Rightarrow> bool" where
  "pathResolves ev bds vgs vg p =
     (case ev p of Inl err \<Rightarrow> False
      | Inr diskName \<Rightarrow> \<not> isDeviceAlreadyPartOfVG vgs diskName vg \<and> hasExactDisk bds diskName \<noteq> None)"


text \<open>A selected device: it carries the selector path that produced it, and that path
  resolves to an unclaimed disk with the device's kernel name.\<close>

definition selectedFrom :: "symlinks \<Rightarrow> VolumeGroup list \<Rightarrow> LVMVolumeGroup \<Rightarrow> BlockDevice \<Rightarrow> bool" where
  "selectedFrom ev vgs vg d =
     (DevicePath d \<noteq> [] \<and>
      (case ev (DevicePath d) of Inl err \<Rightarrow> False
       | Inr diskName \<Rightarrow> KName d = diskName \<and> \<not> isDeviceAlreadyPartOfVG vgs diskName vg))"


text \<open>The five steps of a deletion pass, by their place in the mandatory order: thin-pool
  delete, volume-group delete, registry update or delete, node-status delete, finalizer
  removal.  Every other event is no step.\<close>

fun stepRank :: "event \<Rightarrow> nat option" where
  "stepRank (DeleteLV lv vg) = Some 0"
| "stepRank (DeleteVG vg) = Some 1"
| "stepRank (LvmdSave config) = Some 2"
| "stepRank LvmdDelete = Some 2"
| "stepRank RemoveStatus = Some 3"
| "stepRank UpdateFinalizerRemoved = Some 4"
| "stepRank e = None"

definition teardownSteps :: "event list \<Rightarrow> nat list" where
  "teardownSteps tr = List.map_filter stepRank tr"

text \<open>The host's answer to a step.\<close>

fun stepError :: "host \<Rightarrow> event \<Rightarrow> error option" where
  "stepError h (DeleteLV lv vg) = deleteLV h lv vg"
| "stepError h (DeleteVG vg) = deleteVG h vg"
| "stepError h (LvmdSave config) = lvmdSave h config"
| "stepError h LvmdDelete = lvmdDelete h"
| "stepError h RemoveStatus = removeVolumeGroupStatus h"
| "stepError h UpdateFinalizerRemoved = clientUpdate h"
| "stepError h e = None"

text \<open>A piece of a pass keeps the order between the ranks \<open>lo\<close> and \<open>hi\<close>: its steps come
  in strictly increasing rank, and a step that fails makes the piece fail with no step of a
  higher rank issued.\<close>

definition keepsOrder :: "host \<Rightarrow> nat \<Rightarrow> nat \<Rightarrow> event list \<times> error option \<Rightarrow> bool" where
  "keepsOrder h lo hi p =
     (sorted_wrt (<) (teardownSteps (fst p))
      \<and> (\<forall>r \<in> set (teardownSteps (fst p)). lo \<le> r \<and> r < hi)
      \<and> (\<forall>e \<in> set (fst p). \<forall>r. stepRank e = Some r \<and> stepError h e \<noteq> None \<longrightarrow>
             snd p \<noteq> None \<and> (\<forall>r' \<in> set (teardownSteps (fst p)). r' \<le> r)))"

text \<open>What \<^verbatim>\<open>GetVG\<close>, \<^verbatim>\<open>LVExists\<close> and \<^verbatim>\<open>LVMD.Load\<close> answered.  The volume group is absent
  when \<^verbatim>\<open>GetVG\<close> reports \<^verbatim>\<open>ErrVolumeGroupNotFound\<close>; the thin pool is absent when one is
  configured and \<^verbatim>\<open>LVExists\<close> answers \<^verbatim>\<open>false\<close>.\<close>

definition vgFound :: "host \<Rightarrow> LVMVolumeGroup \<Rightarrow> bool" where
  "vgFound h vg = (case getVG h (lvgName vg) of Inl err \<Rightarrow> False | Inr v \<Rightarrow> True)"

definition groupAbsent :: "host \<Rightarrow> LVMVolumeGroup \<Rightarrow> bool" where
  "groupAbsent h vg = (getVG h (lvgName vg) = Inl VolumeGroupNotFound)"

definition thinPoolFound :: "host \<Rightarrow> LVMVolumeGroup \<Rightarrow> bool" where
  "thinPoolFound h vg =
     (case specThinPoolConfig vg of
        None \<Rightarrow> False
      | Some config \<Rightarrow>
          (case lvExists h (tpName config) (lvgName vg) of Inl err \<Rightarrow> False | Inr found \<Rightarrow> found))"

definition thinPoolAbsent :: "host \<Rightarrow> LVMVolumeGroup \<Rightarrow> bool" where
  "thinPoolAbsent h vg =
     (case specThinPoolConfig vg of
        None \<Rightarrow> False
      | Some config \<Rightarrow> lvExists h (tpName config) (lvgName vg) = Inr False)"

definition configLoaded :: "host \<Rightarrow> bool" where
  "configLoaded h = (case lvmdLoad h of Inl err \<Rightarrow> False | Inr loaded \<Rightarrow> loaded \<noteq> None)"

text \<open>A lookup of the deletion pass failed: the config file could not be read, the volume
  group could not be looked up for another reason than its absence, or the existence of the
  thin pool of a volume group that was found could not be checked.  A target that is
  reported absent is no failed lookup.\<close>

definition lookupFailed :: "host \<Rightarrow> LVMVolumeGroup \<Rightarrow> bool" where
  "lookupFailed h vg =
     (case lvmdLoad h of
        Inl err \<Rightarrow> True
      | Inr loaded \<Rightarrow>
          (case getVG h (lvgName vg) of
             Inl err \<Rightarrow> err \<noteq> VolumeGroupNotFound
           | Inr v \<Rightarrow>
               (case specThinPoolConfig vg of
                  None \<Rightarrow> False
                | Some config \<Rightarrow> isl (lvExists h (tpName config) (lvgName vg)))))"

text \<open>The steps that a deletion pass has to run: none when a lookup failed; otherwise the
  five steps in their order, a step whose target is absent (no thin pool, no volume group,
  no config file, no finalizer) being left out.\<close>

definition deletionPlan :: "host \<Rightarrow> LVMVolumeGroup \<Rightarrow> nat list" where
  "deletionPlan h vg =
     (if lookupFailed h vg then []
      else (if vgFound h vg \<and> thinPoolFound h vg then [0] else [])
         @ (if vgFound h vg then [1] else [])
         @ (if configLoaded h then [2] else [])
         @ [3]
         @ (if finalizerPresent vg then [4] else []))"

text \<open>A host on which every call succeeds and nothing is found: no lvmd config, no block
  device, no volume group, no logical volume.\<close>

definition quietHost :: host where
  "quietHost =
     \<lparr>defaultLVMdSocket = ''/run/topolvm/lvmd.sock'',
      clientUpdate = None,
      lvmdLoad = Inr None,
      lvmdSave = (\<lambda>config. None),
      lvmdDelete = None,
      cmpEqual = (\<lambda>a b. a = b),
      listBlockDevices = Inr [],
      listBlockDevicesAfterWipe = Inr [],
      wipefsWipe = (\<lambda>name. None),
      dmsetupRemove = (\<lambda>name. None),
      alreadyInStatus = (\<lambda>path. False),
      getNewDevicesToBeAdded = (\<lambda>blockDevices. Inr blockDevices),
      filterDevices = (\<lambda>blockDevices. blockDevices),
      listVGs = Inr [],
      executeCommand = (\<lambda>cmd args. None),
      listLVs = (\<lambda>vg. Inr []),
      listLVsValidate = (\<lambda>vg. Inr []),
      parsedLvAttr = (\<lambda>attr. Inl (ParseError attr)),
      parseFloat = (\<lambda>s bits. Inl (ParseError s)),
      intOfUnrepresentable = (\<lambda>x. - (2 ^ 63)),
      getVG = (\<lambda>vg. Inl VolumeGroupNotFound),
      lvExists = (\<lambda>lv vg. Inr False),
      createLV = (\<lambda>lv vg percent. None),
      extendLV = (\<lambda>lv vg percent. None),
      deleteLV = (\<lambda>lv vg. None),
      deleteVG = (\<lambda>vg. None),
      setVolumeGroupProgressingStatus = Inr False,
      setVolumeGroupReadyStatus = Inr True,
      removeVolumeGroupStatus = None\<rparr>"

text \<open>A volume-group spec \<open>vg1\<close> with the thin pool \<open>thin-pool-1\<close> at 90 percent, carrying
  the finalizer.\<close>

definition vg1Spec :: LVMVolumeGroup where
  "vg1Spec =
     \<lparr>lvgName = ''vg1'', deletionRequested = False, finalizerPresent = True,
      specDeviceSelector = None,
      specThinPoolConfig = Some \<lparr>tpName = ''thin-pool-1'', SizePercent = 90, OverprovisionRatio = 10\<rparr>,
      specDefault = True\<rparr>"

definition vg1OnHost :: VolumeGroup where
  "vg1OnHost = \<lparr>vgName = ''vg1'', VgSize = ''100.00g'', PVs = [''/dev/sdb'']\<rparr>"

definition vg1Class :: DeviceClass where
  "vg1Class =
     \<lparr>dcName = ''vg1'', dcVolumeGroup = ''vg1'', dcDefault = True, dcType = TypeThin,
      dcThinPoolConfig = \<lparr>ltpName = ''thin-pool-1'', ltpOverprovisionRatio = 10\<rparr>\<rparr>"

text \<open>A host that holds the volume group \<open>vg1\<close> with its thin pool, and a config file whose
  only device class is that of \<open>vg1\<close>; and the spec \<open>vg1\<close> marked for deletion.\<close>

definition teardownHost :: host where
  "teardownHost =
     quietHost\<lparr>lvmdLoad := Inr (Some \<lparr>SocketName = ''/run/topolvm/lvmd.sock'', DeviceClasses = [vg1Class]\<rparr>),
               getVG := (\<lambda>vg. Inr vg1OnHost),
               lvExists := (\<lambda>lv vg. Inr True)\<rparr>"

definition vg1Deleted :: LVMVolumeGroup where
  "vg1Deleted = vg1Spec\<lparr>deletionRequested := True\<rparr>"

text \<open>The host mutations of a normal pass: creating or extending the volume group, creating or
  extending the thin pool.\<close>

fun isMutation :: "event \<Rightarrow> bool" where
  "isMutation (ExecuteCommand cmd args) = True"
| "isMutation (CreateLV lv vg percent) = True"
| "isMutation (ExtendLV lv vg percent) = True"
| "isMutation e = False"

text \<open>No host mutation precedes the first write of the progressing status.\<close>

definition progressingFirst :: "event list \<Rightarrow> bool" where
  "progressingFirst tr =
     (\<forall>e \<in> set (takeWhile (\<lambda>e. e \<noteq> SetStatus Progressing) tr). \<not> isMutation e)"

text \<open>The events before the volume groups are compared with the devices: reads, the wipe
  step, the finalizer, and the failed status.\<close>

fun preludeEvent :: "event \<Rightarrow> bool" where
  "preludeEvent (WipefsWipe name) = True"
| "preludeEvent (DmsetupRemove name answer) = True"
| "preludeEvent (LogInfo msg) = True"
| "preludeEvent LvmdLoad = True"
| "preludeEvent ListBlockDevices = True"
| "preludeEvent GetNewDevices = True"
| "preludeEvent ListVGs = True"
| "preludeEvent (SetStatus phase) = (phase = Failed)"
| "preludeEvent UpdateFinalizerAdded = True"
| "preludeEvent e = False"

text \<open>The lvmd config a normal pass starts from.\<close>

definition startConfig :: "host \<Rightarrow> LvmdConfig" where
  "startConfig h =
     (case lvmdLoad h of
        Inr (Some config) \<Rightarrow> config
      | _ \<Rightarrow> \<lparr>SocketName = defaultLVMdSocket h, DeviceClasses = []\<rparr>)"

text \<open>The lvmd config with a device class for the volume group: the class is appended when
  no class of that name is there.\<close>

definition ensureClass :: "LVMVolumeGroup \<Rightarrow> LvmdConfig \<Rightarrow> LvmdConfig" where
  "ensureClass vg config =
     (if \<exists>deviceClass \<in> set (DeviceClasses config). dcName deviceClass = lvgName vg then config
      else config\<lparr>DeviceClasses := DeviceClasses config @ [newDeviceClass vg]\<rparr>)"

text \<open>The events of a pass from \<^verbatim>\<open>addDevicesToVG\<close> on.\<close>

definition mutationPhaseEvent :: "LVMVolumeGroup \<Rightarrow> LvmdConfig \<Rightarrow> event \<Rightarrow> bool" where
  "mutationPhaseEvent vg cfg e =
     (isMutation e \<or> e = ListLVs (lvgName vg) \<or> e = GetVG (lvgName vg)
      \<or> e = LvmdSave (ensureClass vg cfg) \<or> e = SetStatus Failed \<or> e = SetStatus Ready)"

text \<open>The status is progressing after the call of \<^verbatim>\<open>setVolumeGroupProgressingStatus\<close>: the
  write went through, or there was nothing to change.\<close>

definition statusSetToProgressing :: "host \<Rightarrow> bool" where
  "statusSetToProgressing h =
     (case setVolumeGroupProgressingStatus h of Inl err \<Rightarrow> False | Inr updated \<Rightarrow> True)"

text \<open>The quiet host with one unused disk.\<close>

definition oneDiskHost :: host where
  "oneDiskHost = quietHost\<lparr>listBlockDevices := Inr [BlockDevice ''sdb'' ''/dev/sdb'' [] []]\<rparr>"

text \<open>The host with one unused disk on which the thin pool, once created, is reported as an
  active thin pool with its metadata filled to 10.5 percent.\<close>

definition healthyHost :: host where
  "healthyHost =
     oneDiskHost
       \<lparr>listLVsValidate :=
          (\<lambda>vg. Inr [[\<lparr>lvName = ''thin-pool-1'', LvAttr = ''twi-a-tz--'', LvSize = ''90.00g'',
                         MetadataPercent = ''10.50''\<rparr>]]),
        parsedLvAttr := (\<lambda>attr. Inr \<lparr>VolumeType = VolumeTypeThinPool, State = StateActive\<rparr>),
        parseFloat := (\<lambda>s bits. if s = ''10.50'' then Inr (Finite (21 / 2)) else Inl (ParseError s))\<rparr>"

text \<open>A host on which the volume group \<open>vg1\<close> of 100.00g exists, and
  \<^verbatim>\<open>strconv.ParseFloat\<close> at the two sizes of the example: 29 and 100 are binary64 numbers.\<close>

definition sizesHost :: host where
  "sizesHost =
     quietHost
       \<lparr>getVG := (\<lambda>vg. Inr vg1OnHost),
        parseFloat := (\<lambda>s bits. if s = ''29.00'' then Inr (Finite 29)
                                else if s = ''100.00'' then Inr (Finite 100)
                                else Inl (ParseError s))\<rparr>"

text \<open>The config file after a pass.  A save that succeeds writes its config and a delete
  that succeeds removes the file; a save or delete that fails, and every other call, leaves
  the file as it was.  \<open>None\<close> is: no file.\<close>

fun registryStep :: "host \<Rightarrow> LvmdConfig option \<Rightarrow> event \<Rightarrow> LvmdConfig option" where
  "registryStep h file (LvmdSave config) = (if lvmdSave h config = None then Some config else file)"
| "registryStep h file LvmdDelete = (if lvmdDelete h = None then None else file)"
| "registryStep h file e = file"

definition registryAfter :: "host \<Rightarrow> LVMVolumeGroup \<Rightarrow> LvmdConfig option \<Rightarrow> LvmdConfig option" where
  "registryAfter h vg file = foldl (registryStep h) file (fst (reconcile h vg))"

text \<open>The device classes that a config file holds.\<close>

definition classesOf :: "LvmdConfig option \<Rightarrow> DeviceClass list" where
  "classesOf file = (case file of None \<Rightarrow> [] | Some config \<Rightarrow> DeviceClasses config)"

text \<open>A device class of another volume group, and the host of the deletion example with
  both classes in its config file.\<close>

definition vg0Class :: DeviceClass where
  "vg0Class =
     \<lparr>dcName = ''vg0'', dcVolumeGroup = ''vg0'', dcDefault = False, dcType = TypeUnset,
      dcThinPoolConfig = \<lparr>ltpName = [], ltpOverprovisionRatio = 0\<rparr>\<rparr>"

definition twoClassHost :: host where
  "twoClassHost =
     teardownHost\<lparr>lvmdLoad := Inr (Some \<lparr>SocketName = ''/run/topolvm/lvmd.sock'',
                                           DeviceClasses = [vg0Class, vg1Class]\<rparr>)\<rparr>"






lemma vgFound_foldl:
  "foldl (\<lambda>found vg. if vgName vg = name then True else found) b vgs
     = (b \<or> (\<exists>vg \<in> set vgs. vgName vg = name))"
  by (induction vgs arbitrary: b) auto

lemma args_foldl:
  "foldl (\<lambda>args device. if DevicePath device \<noteq> [] then args @ [DevicePath device]
                          else args @ [KName device]) acc devices
     = acc @ map (\<lambda>d. if DevicePath d \<noteq> [] then DevicePath d else KName d) devices"
  by (induction devices arbitrary: acc) auto

lemma vgcmd_distinct: "vgcreate \<noteq> vgextend"
  by (simp add: vgcreate_def vgextend_def)

section \<open>Create or extend\<close>

text \<open>C4: with at least one device, \<^verbatim>\<open>addDevicesToVG\<close> issues exactly one host command:
  \<^verbatim>\<open>vgcreate\<close> iff no volume group of that name is in the supplied list, \<^verbatim>\<open>vgextend\<close> iff one
  is; its arguments are the group name followed by the path of every supplied device (the
  device paths themselves when every device has one; a device without a device path is
  named by its kernel name), and the call succeeds iff the command does.\<close>

theorem addDevicesToVG_create_iff_absent:
  assumes "devices \<noteq> []"
  shows "fst (addDevicesToVG exec vgs name devices)
           = [ExecuteCommand (if vgPresent vgs name then vgextend else vgcreate) (deviceArgs name devices)]
       \<and> ((ExecuteCommand vgcreate (deviceArgs name devices) \<in> set (fst (addDevicesToVG exec vgs name devices)))
            = (\<not> vgPresent vgs name))
       \<and> ((ExecuteCommand vgextend (deviceArgs name devices) \<in> set (fst (addDevicesToVG exec vgs name devices)))
            = vgPresent vgs name)
       \<and> ((snd (addDevicesToVG exec vgs name devices) = None)
            = (exec (if vgPresent vgs name then vgextend else vgcreate) (deviceArgs name devices) = None))
       \<and> ((\<forall>d \<in> set devices. DevicePath d \<noteq> []) \<longrightarrow>
             deviceArgs name devices = name # map DevicePath devices)"
proof -
  have "(\<forall>d \<in> set devices. DevicePath d \<noteq> []) \<longrightarrow>
             deviceArgs name devices = name # map DevicePath devices"
    by (simp add: deviceArgs_def)
  moreover have "fst (addDevicesToVG exec vgs name devices)
           = [ExecuteCommand (if vgPresent vgs name then vgextend else vgcreate) (deviceArgs name devices)]"
    using assms
    by (auto simp: addDevicesToVG_def vgFound_foldl args_foldl Let_def vgPresent_def deviceArgs_def
             split: option.splits)
  moreover have "(snd (addDevicesToVG exec vgs name devices) = None)
            = (exec (if vgPresent vgs name then vgextend else vgcreate) (deviceArgs name devices) = None)"
    using assms
    by (auto simp: addDevicesToVG_def vgFound_foldl args_foldl Let_def vgPresent_def deviceArgs_def
             split: option.splits)
  ultimately show ?thesis using vgcmd_distinct by auto
qed

theorem addDevicesToVG_create_iff_absent_witness:
  "fst (addDevicesToVG (\<lambda>c a. None) [\<lparr>vgName = ''vg0'', VgSize = ''10g'', PVs = [''/dev/sda'']\<rparr>] ''vg1''
          [BlockDevice ''sdb'' ''/dev/sdb'' ''/dev/disk/by-id/b'' [],
           BlockDevice ''sdc'' ''/dev/sdc'' ''/dev/disk/by-id/c'' []])
     = [ExecuteCommand ''/usr/sbin/vgcreate'' [''vg1'', ''/dev/disk/by-id/b'', ''/dev/disk/by-id/c'']]
   \<and> fst (addDevicesToVG (\<lambda>c a. None) [\<lparr>vgName = ''vg1'', VgSize = ''10g'', PVs = [''/dev/sda'']\<rparr>] ''vg1''
          [BlockDevice ''sdd'' ''/dev/sdd'' [] []])
     = [ExecuteCommand ''/usr/sbin/vgextend'' [''vg1'', ''/dev/sdd'']]"
  using addDevicesToVG_create_iff_absent [of
          "[BlockDevice ''sdb'' ''/dev/sdb'' ''/dev/disk/by-id/b'' [],
            BlockDevice ''sdc'' ''/dev/sdc'' ''/dev/disk/by-id/c'' []]"
          "\<lambda>c a. None" "[\<lparr>vgName = ''vg0'', VgSize = ''10g'', PVs = [''/dev/sda'']\<rparr>]" "''vg1''"]
    addDevicesToVG_create_iff_absent [of "[BlockDevice ''sdd'' ''/dev/sdd'' [] []]"
          "\<lambda>c a. None" "[\<lparr>vgName = ''vg1'', VgSize = ''10g'', PVs = [''/dev/sda'']\<rparr>]" "''vg1''"]
  by (simp add: vgPresent_def deviceArgs_def vgcreate_def vgextend_def)

text \<open>C5: with an empty device list \<^verbatim>\<open>addDevicesToVG\<close> fails and issues no host command.\<close>

theorem addDevicesToVG_empty:
  "addDevicesToVG exec vgs name [] = ([], Some (ZeroDevices name))"
  by (simp add: addDevicesToVG_def)

section \<open>Duplicate selector paths\<close>

lemma in_set_count: "p \<in> set zs \<longleftrightarrow> 1 \<le> count_list zs p"
  by (metis count_list_0_iff not_less_eq_eq le_zero_eq One_nat_def)

lemma count_list_ge2_member: "2 \<le> count_list xs p \<Longrightarrow> p \<in> set xs"
  by (simp add: in_set_count)

lemma dupStep_foldl:
  "foldl dupStep (u, d) xs
     = (u \<union> set xs, d \<union> {p. 1 \<le> count_list xs p \<and> p \<in> u} \<union> {p. 2 \<le> count_list xs p})"
proof (induction xs arbitrary: u d)
  case Nil
  show ?case by simp
next
  case (Cons x xs)
  show ?case
  proof (cases "x \<in> u")
    case True
    have "foldl dupStep (u, d) (x # xs) = foldl dupStep (u, insert x d) xs"
      using True by (simp add: dupStep_def)
    also have "\<dots> = (u \<union> set xs, insert x d \<union> {p. 1 \<le> count_list xs p \<and> p \<in> u}
                        \<union> {p. 2 \<le> count_list xs p})"
      by (rule Cons.IH)
    also have "\<dots> = (u \<union> set (x # xs), d \<union> {p. 1 \<le> count_list (x # xs) p \<and> p \<in> u}
                        \<union> {p. 2 \<le> count_list (x # xs) p})"
      using True by auto
    finally show ?thesis .
  next
    case False
    have "foldl dupStep (u, d) (x # xs) = foldl dupStep (insert x u, d) xs"
      using False by (simp add: dupStep_def)
    also have "\<dots> = (insert x u \<union> set xs, d \<union> {p. 1 \<le> count_list xs p \<and> p \<in> insert x u}
                        \<union> {p. 2 \<le> count_list xs p})"
      by (rule Cons.IH)
    also have "\<dots> = (u \<union> set (x # xs), d \<union> {p. 1 \<le> count_list (x # xs) p \<and> p \<in> u}
                        \<union> {p. 2 \<le> count_list (x # xs) p})"
      using False by auto
    finally show ?thesis .
  qed
qed

lemma duplicatePaths_eq:
  "snd (foldl dupStep (foldl dupStep ({}, {}) xs) ys) = {p \<in> set (xs @ ys). 2 \<le> count_list (xs @ ys) p}"
  unfolding dupStep_foldl by (auto simp: in_set_count)

lemma not_distinct_count: "(\<not> distinct xs) = (\<exists>p. 2 \<le> count_list xs p)"
proof (induction xs)
  case Nil
  show ?case by simp
next
  case (Cons x xs)
  show ?case
  proof (cases "x \<in> set xs")
    case True
    then have "2 \<le> count_list (x # xs) x" by (simp add: in_set_count)
    then show ?thesis using True by auto
  next
    case False
    then have "count_list xs x = 0" by simp
    then have "\<And>p. (2 \<le> count_list (x # xs) p) = (2 \<le> count_list xs p)" by auto
    then show ?thesis using False Cons by simp
  qed
qed

lemma checkDuplicate_eq:
  "checkDuplicateDeviceSelectorPaths sel =
     (if distinct (Paths sel @ OptionalPaths sel) then None
      else Some (DuplicateDevicePaths (duplicatedPaths sel)))"
proof -
  have "duplicatedPaths sel \<noteq> {} \<longleftrightarrow> \<not> distinct (Paths sel @ OptionalPaths sel)"
    unfolding duplicatedPaths_def not_distinct_count
    using count_list_ge2_member by fastforce
  then show ?thesis
    by (simp add: checkDuplicateDeviceSelectorPaths_def Let_def duplicatePaths_eq duplicatedPaths_def)
qed


section \<open>Device selection\<close>

lemma hasExactDisk_KName: "hasExactDisk bds n = Some d \<Longrightarrow> KName d = n"
  by (induction bds n rule: hasExactDisk.induct) (auto split: if_splits option.splits)

lemma getValidDevice_claimed:
  "ev p = Inr n \<Longrightarrow> isDeviceAlreadyPartOfVG vgs n vg
     \<Longrightarrow> getValidDevice ev p bds vgs vg = Inr emptyBlockDevice"
  by (simp add: getValidDevice_def)

lemma getValidDevice_isl:
  "isl (getValidDevice ev p bds vgs vg) = (\<not> pathResolves ev bds vgs vg p \<and> \<not> pathAlreadyInVG ev vgs vg p)"
  by (auto simp: getValidDevice_def pathResolves_def pathAlreadyInVG_def split: sum.splits option.splits)

lemma getValidDevice_selected:
  "getValidDevice ev p bds vgs vg = Inr d \<Longrightarrow> DevicePath d \<noteq> [] \<Longrightarrow> selectedFrom ev vgs vg d"
  by (auto simp: getValidDevice_def selectedFrom_def emptyBlockDevice_def
           split: sum.splits option.splits if_splits dest: hasExactDisk_KName)

lemma requiredPathsLoop_selected:
  "requiredPathsLoop ev bds vgs vg paths (f, b, tr) = (tr', Inr (f', b', tr''))
     \<Longrightarrow> \<forall>d \<in> set f. selectedFrom ev vgs vg d \<Longrightarrow> \<forall>d \<in> set f'. selectedFrom ev vgs vg d"
proof (induction paths arbitrary: f b tr)
  case Nil
  then show ?case by simp
next
  case (Cons p paths)
  show ?case
  proof (cases "getValidDevice ev p bds vgs vg")
    case (Inl err)
    with Cons.prems(1) show ?thesis by simp
  next
    case (Inr d)
    show ?thesis
    proof (cases "DevicePath d = []")
      case True
      with Inr Cons.prems(1)
      have "requiredPathsLoop ev bds vgs vg paths (f, True, tr @ [EvalSymlinks p]) = (tr', Inr (f', b', tr''))"
        by simp
      from Cons.IH [OF this Cons.prems(2)] show ?thesis .
    next
      case False
      with Inr Cons.prems(1)
      have run: "requiredPathsLoop ev bds vgs vg paths (f @ [d], b, tr @ [EvalSymlinks p]) = (tr', Inr (f', b', tr''))"
        by simp
      have "selectedFrom ev vgs vg d"
        using getValidDevice_selected [OF Inr False] .
      with Cons.prems(2) have "\<forall>x \<in> set (f @ [d]). selectedFrom ev vgs vg x" by simp
      from Cons.IH [OF run this] show ?thesis .
    qed
  qed
qed

lemma optionalPathsLoop_selected:
  "optionalPathsLoop ev bds vgs vg paths (f, b, tr) = (f', b', tr')
     \<Longrightarrow> \<forall>d \<in> set f. selectedFrom ev vgs vg d \<Longrightarrow> \<forall>d \<in> set f'. selectedFrom ev vgs vg d"
proof (induction paths arbitrary: f b tr)
  case Nil
  then show ?case by simp
next
  case (Cons p paths)
  show ?case
  proof (cases "getValidDevice ev p bds vgs vg")
    case (Inl err)
    with Cons.prems(1)
    have "optionalPathsLoop ev bds vgs vg paths (f, b, tr @ [EvalSymlinks p]) = (f', b', tr')"
      by simp
    from Cons.IH [OF this Cons.prems(2)] show ?thesis .
  next
    case (Inr d)
    show ?thesis
    proof (cases "DevicePath d = []")
      case True
      with Inr Cons.prems(1)
      have "optionalPathsLoop ev bds vgs vg paths (f, True, tr @ [EvalSymlinks p]) = (f', b', tr')"
        by simp
      from Cons.IH [OF this Cons.prems(2)] show ?thesis .
    next
      case False
      with Inr Cons.prems(1)
      have run: "optionalPathsLoop ev bds vgs vg paths (f @ [d], b, tr @ [EvalSymlinks p]) = (f', b', tr')"
        by simp
      have "selectedFrom ev vgs vg d"
        using getValidDevice_selected [OF Inr False] .
      with Cons.prems(2) have "\<forall>x \<in> set (f @ [d]). selectedFrom ev vgs vg x" by simp
      from Cons.IH [OF run this] show ?thesis .
    qed
  qed
qed

lemma requiredPathsLoop_flag:
  "requiredPathsLoop ev bds vgs vg paths (f, b, tr) = (tr', Inr (f', b', tr''))
     \<Longrightarrow> (f' = [] \<and> \<not> b') = (f = [] \<and> \<not> b \<and> paths = [])"
proof (induction paths arbitrary: f b tr)
  case Nil
  then show ?case by auto
next
  case (Cons p paths)
  show ?case
  proof (cases "getValidDevice ev p bds vgs vg")
    case (Inl err)
    with Cons.prems show ?thesis by simp
  next
    case (Inr d)
    show ?thesis
    proof (cases "DevicePath d = []")
      case True
      with Inr Cons.prems
      have "requiredPathsLoop ev bds vgs vg paths (f, True, tr @ [EvalSymlinks p]) = (tr', Inr (f', b', tr''))"
        by simp
      from Cons.IH [OF this] show ?thesis by simp
    next
      case False
      with Inr Cons.prems
      have "requiredPathsLoop ev bds vgs vg paths (f @ [d], b, tr @ [EvalSymlinks p]) = (tr', Inr (f', b', tr''))"
        by simp
      from Cons.IH [OF this] show ?thesis by simp
    qed
  qed
qed

lemma requiredPathsLoop_error:
  "requiredPathsLoop ev bds vgs vg paths (f, b, tr) = (tr', Inl e)
     \<Longrightarrow> \<exists>q \<in> set paths. \<exists>err. getValidDevice ev q bds vgs vg = Inl err
                 \<and> e = DeviceInvalid q err"
proof (induction paths arbitrary: f b tr)
  case Nil
  then show ?case by simp
next
  case (Cons p paths)
  show ?case
  proof (cases "getValidDevice ev p bds vgs vg")
    case (Inl err)
    with Cons.prems show ?thesis by simp
  next
    case (Inr d)
    show ?thesis
    proof (cases "DevicePath d = []")
      case True
      with Inr Cons.prems
      have "requiredPathsLoop ev bds vgs vg paths (f, True, tr @ [EvalSymlinks p]) = (tr', Inl e)"
        by simp
      from Cons.IH [OF this] show ?thesis by simp
    next
      case False
      with Inr Cons.prems
      have "requiredPathsLoop ev bds vgs vg paths (f @ [d], b, tr @ [EvalSymlinks p]) = (tr', Inl e)"
        by simp
      from Cons.IH [OF this] show ?thesis by simp
    qed
  qed
qed

lemma optionalPathsLoop_flag:
  "optionalPathsLoop ev bds vgs vg paths (f, b, tr) = (f', b', tr')
     \<Longrightarrow> (f' = [] \<and> \<not> b')
         = (f = [] \<and> \<not> b \<and> (\<forall>p \<in> set paths. isl (getValidDevice ev p bds vgs vg)))"
proof (induction paths arbitrary: f b tr)
  case Nil
  then show ?case by auto
next
  case (Cons p paths)
  show ?case
  proof (cases "getValidDevice ev p bds vgs vg")
    case (Inl err)
    with Cons.prems
    have "optionalPathsLoop ev bds vgs vg paths (f, b, tr @ [EvalSymlinks p]) = (f', b', tr')"
      by simp
    from Cons.IH [OF this] show ?thesis using Inl by simp
  next
    case (Inr d)
    show ?thesis
    proof (cases "DevicePath d = []")
      case True
      with Inr Cons.prems
      have "optionalPathsLoop ev bds vgs vg paths (f, True, tr @ [EvalSymlinks p]) = (f', b', tr')"
        by simp
      from Cons.IH [OF this] show ?thesis using Inr by simp
    next
      case False
      with Inr Cons.prems
      have "optionalPathsLoop ev bds vgs vg paths (f @ [d], b, tr @ [EvalSymlinks p]) = (f', b', tr')"
        by simp
      from Cons.IH [OF this] show ?thesis using Inr by simp
    qed
  qed
qed

lemma requiredPathsLoop_claimed:
  "\<forall>p \<in> set paths. pathAlreadyInVG ev vgs vg p
     \<Longrightarrow> requiredPathsLoop ev bds vgs vg paths (f, b, tr)
         = (tr @ map EvalSymlinks paths, Inr (f, b \<or> paths \<noteq> [], tr @ map EvalSymlinks paths))"
proof (induction paths arbitrary: b tr)
  case Nil
  show ?case by simp
next
  case (Cons p paths)
  from Cons.prems obtain n where "ev p = Inr n" "isDeviceAlreadyPartOfVG vgs n vg"
    by (auto simp: pathAlreadyInVG_def split: sum.splits)
  then have g: "getValidDevice ev p bds vgs vg = Inr emptyBlockDevice"
    by (rule getValidDevice_claimed)
  have "\<forall>p \<in> set paths. pathAlreadyInVG ev vgs vg p" using Cons.prems by simp
  from Cons.IH [OF this] show ?case using g by (simp add: emptyBlockDevice_def)
qed

lemma optionalPathsLoop_claimed:
  "\<forall>p \<in> set paths. pathAlreadyInVG ev vgs vg p
     \<Longrightarrow> optionalPathsLoop ev bds vgs vg paths (f, b, tr)
         = (f, b \<or> paths \<noteq> [], tr @ map EvalSymlinks paths)"
proof (induction paths arbitrary: b tr)
  case Nil
  show ?case by simp
next
  case (Cons p paths)
  from Cons.prems obtain n where "ev p = Inr n" "isDeviceAlreadyPartOfVG vgs n vg"
    by (auto simp: pathAlreadyInVG_def split: sum.splits)
  then have g: "getValidDevice ev p bds vgs vg = Inr emptyBlockDevice"
    by (rule getValidDevice_claimed)
  have "\<forall>p \<in> set paths. pathAlreadyInVG ev vgs vg p" using Cons.prems by simp
  from Cons.IH [OF this] show ?case using g by (simp add: emptyBlockDevice_def)
qed

lemma filterMatchingDevices_distinct:
  assumes "specDeviceSelector vg = Some sel" and "distinct (Paths sel @ OptionalPaths sel)"
  shows "filterMatchingDevices ev bds vgs vg =
    (case requiredPathsLoop ev bds vgs vg (Paths sel) ([], False, []) of
       (tr, Inl err) \<Rightarrow> (tr, Inl err)
     | (tr, Inr st) \<Rightarrow>
         if length (OptionalPaths sel) > 0
         then (case optionalPathsLoop ev bds vgs vg (OptionalPaths sel) st of
                 (filtered, inVG, tr') \<Rightarrow>
                   if length filtered = 0 \<and> \<not> inVG
                   then (tr', Inl AtLeastOneDeviceRequired)
                   else (tr', Inr filtered))
         else (case st of (filtered, inVG, tr') \<Rightarrow> (tr', Inr filtered)))"
proof -
  have "checkDuplicateDeviceSelectorPaths sel = None"
    using assms(2) by (simp only: checkDuplicate_eq if_True)
  then show ?thesis
    unfolding filterMatchingDevices_def by (simp only: assms(1) option.case)
qed

lemma filterMatchingDevices_duplicates:
  assumes "specDeviceSelector vg = Some sel"
    and "\<not> distinct (Paths sel @ OptionalPaths sel)"
  shows "filterMatchingDevices ev bds vgs vg
           = ([], Inl (SelectorPathsInvalid (DuplicateDevicePaths (duplicatedPaths sel))))"
proof -
  have "checkDuplicateDeviceSelectorPaths sel = Some (DuplicateDevicePaths (duplicatedPaths sel))"
    using assms(2) by (simp only: checkDuplicate_eq if_False)
  then show ?thesis
    using assms(1) by (simp add: filterMatchingDevices_def)
qed

text \<open>C6: a selector in which a path occurs more than once among the required and optional
  paths is rejected with the validation error that carries exactly the duplicated paths;
  no symlink is resolved, and the answer depends neither on the device tree nor on the
  volume groups nor on the symlinks.\<close>

theorem duplicate_paths_rejected_first:
  assumes "specDeviceSelector vg = Some sel"
    and "\<not> distinct (Paths sel @ OptionalPaths sel)"
  shows "filterMatchingDevices ev bds vgs vg
           = ([], Inl (SelectorPathsInvalid (DuplicateDevicePaths (duplicatedPaths sel))))
       \<and> duplicatedPaths sel \<noteq> {}
       \<and> duplicatedPaths sel = {p. 2 \<le> count_list (Paths sel @ OptionalPaths sel) p}"
proof -
  have "duplicatedPaths sel \<noteq> {}"
    using assms(2) unfolding duplicatedPaths_def not_distinct_count
    using count_list_ge2_member by fastforce
  moreover have "duplicatedPaths sel = {p. 2 \<le> count_list (Paths sel @ OptionalPaths sel) p}"
    unfolding duplicatedPaths_def using count_list_ge2_member by fastforce
  ultimately show ?thesis
    using filterMatchingDevices_duplicates [OF assms, of ev bds vgs] by blast
qed

theorem duplicate_paths_rejected_first_witness:
  "filterMatchingDevices (\<lambda>p. Inr p) [BlockDevice ''sdb'' ''/dev/sdb'' [] []] []
     \<lparr>lvgName = ''vg1'', deletionRequested = False, finalizerPresent = True,
      specDeviceSelector = Some \<lparr>Paths = [''/dev/sdb'', ''/dev/sdb''], OptionalPaths = [],
                                 ForceWipeDevicesAndDestroyAllData = None\<rparr>,
      specThinPoolConfig = None, specDefault = False\<rparr>
   = ([], Inl (SelectorPathsInvalid (DuplicateDevicePaths {''/dev/sdb''})))"
proof -
  let ?sel = "\<lparr>Paths = [''/dev/sdb'', ''/dev/sdb''], OptionalPaths = [],
                ForceWipeDevicesAndDestroyAllData = None\<rparr>"
  have d: "duplicatedPaths ?sel = {''/dev/sdb''}"
    by (auto simp: duplicatedPaths_def)
  show ?thesis
    using duplicate_paths_rejected_first [of
        "\<lparr>lvgName = ''vg1'', deletionRequested = False, finalizerPresent = True,
          specDeviceSelector = Some ?sel, specThinPoolConfig = None, specDefault = False\<rparr>"
        ?sel "\<lambda>p. Inr p" "[BlockDevice ''sdb'' ''/dev/sdb'' [] []]" "[]"]
    by (simp add: d)
qed

lemma atLeastOne_iff:
  assumes "specDeviceSelector vg = Some sel"
  shows "(snd (filterMatchingDevices ev bds vgs vg) = Inl AtLeastOneDeviceRequired)
       = (OptionalPaths sel \<noteq> [] \<and> Paths sel = [] \<and> distinct (OptionalPaths sel)
          \<and> (\<forall>p \<in> set (OptionalPaths sel).
                \<not> pathResolves ev bds vgs vg p \<and> \<not> pathAlreadyInVG ev vgs vg p))"
proof (cases "distinct (Paths sel @ OptionalPaths sel)")
  case False
  have "snd (filterMatchingDevices ev bds vgs vg) \<noteq> Inl AtLeastOneDeviceRequired"
    using filterMatchingDevices_duplicates [OF assms False, of ev bds vgs] by simp
  moreover have "\<not> (Paths sel = [] \<and> distinct (OptionalPaths sel))"
    using False by auto
  ultimately show ?thesis by blast
next
  case True
  note unf = filterMatchingDevices_distinct [OF assms True, of ev bds vgs]
  obtain tr r where req: "requiredPathsLoop ev bds vgs vg (Paths sel) ([], False, []) = (tr, r)"
    by (cases "requiredPathsLoop ev bds vgs vg (Paths sel) ([], False, [])")
  show ?thesis
  proof (cases r)
    case (Inl e)
    from requiredPathsLoop_error [OF req [unfolded Inl]]
    have "e \<noteq> AtLeastOneDeviceRequired" "Paths sel \<noteq> []" by auto
    then show ?thesis using unf req Inl by simp
  next
    case (Inr st)
    obtain f b tr0 where st: "st = (f, b, tr0)" by (cases st)
    note flag1 = requiredPathsLoop_flag [OF req [unfolded Inr st]]
    show ?thesis
    proof (cases "OptionalPaths sel = []")
      case e: True
      then show ?thesis using unf req Inr st by simp
    next
      case ne: False
      obtain f' b' tr' where opt:
        "optionalPathsLoop ev bds vgs vg (OptionalPaths sel) (f, b, tr0) = (f', b', tr')"
        by (cases "optionalPathsLoop ev bds vgs vg (OptionalPaths sel) (f, b, tr0)")
      note flag2 = optionalPathsLoop_flag [OF opt]
      have "(snd (filterMatchingDevices ev bds vgs vg) = Inl AtLeastOneDeviceRequired)
              = (f' = [] \<and> \<not> b')"
        using unf req Inr st ne opt by simp
      also have "\<dots> = (Paths sel = [] \<and> (\<forall>p \<in> set (OptionalPaths sel).
                              isl (getValidDevice ev p bds vgs vg)))"
        using flag1 flag2 by auto
      finally show ?thesis using ne True by (simp add: getValidDevice_isl)
    qed
  qed
qed

lemma filterMatchingDevices_selected:
  assumes sel: "specDeviceSelector vg = Some sel"
    and res: "snd (filterMatchingDevices ev bds vgs vg) = Inr ds"
  shows "\<forall>d \<in> set ds. selectedFrom ev vgs vg d"
proof (cases "distinct (Paths sel @ OptionalPaths sel)")
  case False
  show ?thesis
    using filterMatchingDevices_duplicates [OF sel False, of ev bds vgs] res by simp
next
  case True
  note unf = filterMatchingDevices_distinct [OF sel True, of ev bds vgs]
  obtain tr r where req: "requiredPathsLoop ev bds vgs vg (Paths sel) ([], False, []) = (tr, r)"
    by (cases "requiredPathsLoop ev bds vgs vg (Paths sel) ([], False, [])")
  show ?thesis
  proof (cases r)
    case (Inl e)
    then show ?thesis using unf req res by simp
  next
    case (Inr st)
    obtain f b tr0 where st: "st = (f, b, tr0)" by (cases st)
    have f: "\<forall>d \<in> set f. selectedFrom ev vgs vg d"
      using requiredPathsLoop_selected [OF req [unfolded Inr st]] by simp
    show ?thesis
    proof (cases "OptionalPaths sel = []")
      case True
      then show ?thesis using unf req Inr st res f by simp
    next
      case False
      obtain f' b' tr' where opt:
        "optionalPathsLoop ev bds vgs vg (OptionalPaths sel) (f, b, tr0) = (f', b', tr')"
        by (cases "optionalPathsLoop ev bds vgs vg (OptionalPaths sel) (f, b, tr0)")
      have f': "\<forall>d \<in> set f'. selectedFrom ev vgs vg d"
        using optionalPathsLoop_selected [OF opt f] .
      show ?thesis using unf req Inr st res False opt f' by (auto split: if_splits)
    qed
  qed
qed

text \<open>C8: with optional paths given, no required path, no optional path resolving to a
  device and none already in the target volume group, selection fails; and the failure
  \<open>AtLeastOneDeviceRequired\<close> is raised in exactly that case (for a selector whose paths are
  distinct, since duplicates are rejected first), never without a selector.\<close>

theorem at_least_one_founding_device:
  "(specDeviceSelector vg = None \<longrightarrow>
      snd (filterMatchingDevices ev bds vgs vg) \<noteq> Inl AtLeastOneDeviceRequired)
   \<and> (\<forall>sel. specDeviceSelector vg = Some sel \<longrightarrow>
        (OptionalPaths sel \<noteq> [] \<and> Paths sel = []
           \<and> (\<forall>p \<in> set (OptionalPaths sel).
                 \<not> pathResolves ev bds vgs vg p \<and> \<not> pathAlreadyInVG ev vgs vg p)
           \<longrightarrow> isl (snd (filterMatchingDevices ev bds vgs vg)))
        \<and> ((snd (filterMatchingDevices ev bds vgs vg) = Inl AtLeastOneDeviceRequired)
             = (OptionalPaths sel \<noteq> [] \<and> Paths sel = [] \<and> distinct (OptionalPaths sel)
                \<and> (\<forall>p \<in> set (OptionalPaths sel).
                      \<not> pathResolves ev bds vgs vg p \<and> \<not> pathAlreadyInVG ev vgs vg p))))"
proof (intro conjI allI impI)
  assume "specDeviceSelector vg = None"
  then show "snd (filterMatchingDevices ev bds vgs vg) \<noteq> Inl AtLeastOneDeviceRequired"
    by (simp add: filterMatchingDevices_def)
next
  fix sel
  assume sel: "specDeviceSelector vg = Some sel"
  show "(snd (filterMatchingDevices ev bds vgs vg) = Inl AtLeastOneDeviceRequired)
      = (OptionalPaths sel \<noteq> [] \<and> Paths sel = [] \<and> distinct (OptionalPaths sel)
         \<and> (\<forall>p \<in> set (OptionalPaths sel).
               \<not> pathResolves ev bds vgs vg p \<and> \<not> pathAlreadyInVG ev vgs vg p))"
    by (rule atLeastOne_iff [OF sel])
next
  fix sel
  assume sel: "specDeviceSelector vg = Some sel"
    and h: "OptionalPaths sel \<noteq> [] \<and> Paths sel = []
           \<and> (\<forall>p \<in> set (OptionalPaths sel).
                 \<not> pathResolves ev bds vgs vg p \<and> \<not> pathAlreadyInVG ev vgs vg p)"
  show "isl (snd (filterMatchingDevices ev bds vgs vg))"
  proof (cases "distinct (Paths sel @ OptionalPaths sel)")
    case False
    show ?thesis
      using filterMatchingDevices_duplicates [OF sel False, of ev bds vgs] by simp
  next
    case True
    with h have "snd (filterMatchingDevices ev bds vgs vg) = Inl AtLeastOneDeviceRequired"
      using atLeastOne_iff [OF sel, of ev bds vgs] by simp
    then show ?thesis by simp
  qed
qed

text \<open>C7: a selector path whose resolved disk is already a physical volume of the target
  volume group yields the empty device without error; selection raises no error for that
  path, no returned device carries that path or is a physical volume of the target group,
  and when every selector path is claimed, selection resolves each path once and returns no
  device and no error.\<close>

theorem claimed_path_skipped:
  assumes sel: "specDeviceSelector vg = Some sel"
    and p: "p \<in> set (Paths sel @ OptionalPaths sel)"
    and claimed: "pathAlreadyInVG ev vgs vg p"
  shows "getValidDevice ev p bds vgs vg = Inr emptyBlockDevice
     \<and> (\<forall>e. snd (filterMatchingDevices ev bds vgs vg) = Inl e \<longrightarrow>
            e \<noteq> AtLeastOneDeviceRequired
            \<and> (\<forall>e'. e \<noteq> DeviceInvalid p e'))
     \<and> (\<forall>ds. snd (filterMatchingDevices ev bds vgs vg) = Inr ds \<longrightarrow>
            (\<forall>d \<in> set ds. DevicePath d \<noteq> p \<and> \<not> isDeviceAlreadyPartOfVG vgs (KName d) vg))
     \<and> (distinct (Paths sel @ OptionalPaths sel)
          \<and> (\<forall>q \<in> set (Paths sel @ OptionalPaths sel). pathAlreadyInVG ev vgs vg q)
          \<longrightarrow> filterMatchingDevices ev bds vgs vg
                = (map EvalSymlinks (Paths sel @ OptionalPaths sel), Inr []))"
proof -
  from claimed obtain n where n: "ev p = Inr n" "isDeviceAlreadyPartOfVG vgs n vg"
    by (auto simp: pathAlreadyInVG_def split: sum.splits)
  have g: "getValidDevice ev p bds vgs vg = Inr emptyBlockDevice"
    using n by (rule getValidDevice_claimed)
  have noAtLeast: "snd (filterMatchingDevices ev bds vgs vg) \<noteq> Inl AtLeastOneDeviceRequired"
    using atLeastOne_iff [OF sel, of ev bds vgs] p claimed by auto
  have noWrap: "snd (filterMatchingDevices ev bds vgs vg) \<noteq> Inl (DeviceInvalid p e')" for e'
  proof (cases "distinct (Paths sel @ OptionalPaths sel)")
    case False
    show ?thesis
      using filterMatchingDevices_duplicates [OF sel False, of ev bds vgs] by simp
  next
    case True
    note unf = filterMatchingDevices_distinct [OF sel True, of ev bds vgs]
    obtain tr r where req: "requiredPathsLoop ev bds vgs vg (Paths sel) ([], False, []) = (tr, r)"
      by (cases "requiredPathsLoop ev bds vgs vg (Paths sel) ([], False, [])")
    show ?thesis
    proof (cases r)
      case (Inl e)
      from requiredPathsLoop_error [OF req [unfolded Inl]]
      obtain q err where q: "getValidDevice ev q bds vgs vg = Inl err"
        "e = DeviceInvalid q err" by blast
      have "q \<noteq> p" using q(1) g by auto
      then show ?thesis using unf req Inl q(2) by simp
    next
      case (Inr st)
      then show ?thesis using unf req
        by (auto split: prod.splits if_splits)
    qed
  qed
  have sel_ok: "DevicePath d \<noteq> p \<and> \<not> isDeviceAlreadyPartOfVG vgs (KName d) vg"
    if "snd (filterMatchingDevices ev bds vgs vg) = Inr ds" "d \<in> set ds" for ds d
  proof -
    have "selectedFrom ev vgs vg d"
      using filterMatchingDevices_selected [OF sel that(1)] that(2) by blast
    then show ?thesis using n
      by (auto simp: selectedFrom_def split: sum.splits)
  qed
  have idem: "filterMatchingDevices ev bds vgs vg
                = (map EvalSymlinks (Paths sel @ OptionalPaths sel), Inr [])"
    if d: "distinct (Paths sel @ OptionalPaths sel)"
      and all: "\<forall>q \<in> set (Paths sel @ OptionalPaths sel). pathAlreadyInVG ev vgs vg q"
  proof -
    have r: "\<forall>q \<in> set (Paths sel). pathAlreadyInVG ev vgs vg q"
      and o: "\<forall>q \<in> set (OptionalPaths sel). pathAlreadyInVG ev vgs vg q"
      using all by auto
    show ?thesis
      unfolding filterMatchingDevices_distinct [OF sel d]
      by (simp add: requiredPathsLoop_claimed [OF r] optionalPathsLoop_claimed [OF o])
  qed
  show ?thesis using g noAtLeast noWrap sel_ok idem by blast
qed

theorem at_least_one_founding_device_witness:
  "snd (filterMatchingDevices (\<lambda>p. Inl (HostError ''no such file or directory''))
          [BlockDevice ''sdb'' ''/dev/sdb'' [] []] []
          \<lparr>lvgName = ''vg1'', deletionRequested = False, finalizerPresent = True,
           specDeviceSelector = Some \<lparr>Paths = [], OptionalPaths = [''/dev/sdx''],
                                      ForceWipeDevicesAndDestroyAllData = None\<rparr>,
           specThinPoolConfig = None, specDefault = False\<rparr>)
     = Inl AtLeastOneDeviceRequired"
  using at_least_one_founding_device [of
      "\<lparr>lvgName = ''vg1'', deletionRequested = False, finalizerPresent = True,
        specDeviceSelector = Some \<lparr>Paths = [], OptionalPaths = [''/dev/sdx''],
                                   ForceWipeDevicesAndDestroyAllData = None\<rparr>,
        specThinPoolConfig = None, specDefault = False\<rparr>"
      "\<lambda>p. Inl (HostError ''no such file or directory'')"
      "[BlockDevice ''sdb'' ''/dev/sdb'' [] []]" "[]"]
  by (simp add: pathResolves_def pathAlreadyInVG_def)

theorem claimed_path_skipped_witness:
  "pathAlreadyInVG (\<lambda>p. Inr p) [\<lparr>vgName = ''vg1'', VgSize = ''100.00g'', PVs = [''/dev/sdb'']\<rparr>]
       \<lparr>lvgName = ''vg1'', deletionRequested = False, finalizerPresent = True,
        specDeviceSelector = Some \<lparr>Paths = [''/dev/sdb''], OptionalPaths = [],
                                   ForceWipeDevicesAndDestroyAllData = None\<rparr>,
        specThinPoolConfig = None, specDefault = False\<rparr> ''/dev/sdb''
   \<and> filterMatchingDevices (\<lambda>p. Inr p) [BlockDevice ''sdb'' ''/dev/sdb'' [] []]
       [\<lparr>vgName = ''vg1'', VgSize = ''100.00g'', PVs = [''/dev/sdb'']\<rparr>]
       \<lparr>lvgName = ''vg1'', deletionRequested = False, finalizerPresent = True,
        specDeviceSelector = Some \<lparr>Paths = [''/dev/sdb''], OptionalPaths = [],
                                   ForceWipeDevicesAndDestroyAllData = None\<rparr>,
        specThinPoolConfig = None, specDefault = False\<rparr>
     = ([EvalSymlinks ''/dev/sdb''], Inr [])"
proof -
  let ?sel = "\<lparr>Paths = [''/dev/sdb''], OptionalPaths = [], ForceWipeDevicesAndDestroyAllData = None\<rparr>"
  let ?vg = "\<lparr>lvgName = ''vg1'', deletionRequested = False, finalizerPresent = True,
        specDeviceSelector = Some ?sel, specThinPoolConfig = None, specDefault = False\<rparr>"
  let ?vgs = "[\<lparr>vgName = ''vg1'', VgSize = ''100.00g'', PVs = [''/dev/sdb'']\<rparr>]"
  have c: "pathAlreadyInVG (\<lambda>p. Inr p) ?vgs ?vg ''/dev/sdb''"
    by (simp add: pathAlreadyInVG_def isDeviceAlreadyPartOfVG_def)
  have s: "specDeviceSelector ?vg = Some ?sel" by simp
  have p: "''/dev/sdb'' \<in> set (Paths ?sel @ OptionalPaths ?sel)" by simp
  show ?thesis
    using c claimed_path_skipped [OF s p c, of "[BlockDevice ''sdb'' ''/dev/sdb'' [] []]"]
    by simp
qed

section \<open>Wiping devices: which failures abort the pass\<close>






















section \<open>Deletion: the order of the teardown\<close>

lemma teardownSteps_append: "teardownSteps (a @ b) = teardownSteps a @ teardownSteps b"
  by (simp add: teardownSteps_def map_filter_def)

lemma teardownSteps_Nil: "teardownSteps [] = []"
  by (simp add: teardownSteps_def map_filter_def)

lemma teardownSteps_Cons:
  "teardownSteps (e # tr) = (case stepRank e of None \<Rightarrow> teardownSteps tr | Some r \<Rightarrow> r # teardownSteps tr)"
  by (simp add: teardownSteps_def map_filter_def split: option.splits)

lemma in_teardownSteps: "stepRank e = Some r \<Longrightarrow> e \<in> set tr \<Longrightarrow> r \<in> set (teardownSteps tr)"
  by (force simp: teardownSteps_def map_filter_def)

lemma keepsOrder_weaken:
  assumes "keepsOrder h lo hi p" and "lo' \<le> lo" and "hi \<le> hi'"
  shows "keepsOrder h lo' hi' p"
proof -
  have "\<forall>r \<in> set (teardownSteps (fst p)). lo' \<le> r \<and> r < hi'"
  proof
    fix r assume "r \<in> set (teardownSteps (fst p))"
    then have "lo \<le> r \<and> r < hi" using assms(1) unfolding keepsOrder_def by blast
    then show "lo' \<le> r \<and> r < hi'" using assms(2,3) by linarith
  qed
  then show ?thesis using assms(1) unfolding keepsOrder_def by blast
qed

lemma keepsOrder_andThen:
  assumes a: "keepsOrder h lo mid a" and b: "keepsOrder h mid hi b"
    and lm: "lo \<le> mid" and mh: "mid \<le> hi"
  shows "keepsOrder h lo hi (andThen a b)"
proof (cases "snd a")
  case (Some err)
  then have "andThen a b = a" by (cases a) (simp add: andThen_def)
  then show ?thesis using keepsOrder_weaken [OF a order_refl mh] by simp
next
  case None
  then have eq: "andThen a b = (fst a @ fst b, snd b)" by (cases a) (simp add: andThen_def)
  have sa: "sorted_wrt (<) (teardownSteps (fst a))" and sb: "sorted_wrt (<) (teardownSteps (fst b))"
    and ra: "\<And>r. r \<in> set (teardownSteps (fst a)) \<Longrightarrow> lo \<le> r \<and> r < mid"
    and rb: "\<And>r. r \<in> set (teardownSteps (fst b)) \<Longrightarrow> mid \<le> r \<and> r < hi"
    using a b unfolding keepsOrder_def by blast+
  have nofail: "\<And>e r. e \<in> set (fst a) \<Longrightarrow> stepRank e = Some r \<Longrightarrow> stepError h e = None"
    using a None unfolding keepsOrder_def by blast
  have failb: "\<And>e r. e \<in> set (fst b) \<Longrightarrow> stepRank e = Some r \<Longrightarrow> stepError h e \<noteq> None \<Longrightarrow>
             snd b \<noteq> None \<and> (\<forall>r' \<in> set (teardownSteps (fst b)). r' \<le> r)"
    using b unfolding keepsOrder_def by blast
  have cross: "\<And>x y. x \<in> set (teardownSteps (fst a)) \<Longrightarrow> y \<in> set (teardownSteps (fst b)) \<Longrightarrow> x < y"
  proof -
    fix x y assume "x \<in> set (teardownSteps (fst a))" "y \<in> set (teardownSteps (fst b))"
    then have "x < mid" "mid \<le> y" using ra rb by blast+
    then show "x < y" by linarith
  qed
  have 1: "sorted_wrt (<) (teardownSteps (fst a @ fst b))"
    unfolding teardownSteps_append sorted_wrt_append using sa sb cross by blast
  have 2: "\<forall>r \<in> set (teardownSteps (fst a @ fst b)). lo \<le> r \<and> r < hi"
  proof
    fix r assume "r \<in> set (teardownSteps (fst a @ fst b))"
    then consider "r \<in> set (teardownSteps (fst a))" | "r \<in> set (teardownSteps (fst b))"
      unfolding teardownSteps_append by auto
    then show "lo \<le> r \<and> r < hi"
    proof cases
      case 1
      then have "lo \<le> r \<and> r < mid" using ra by blast
      then show ?thesis using mh by linarith
    next
      case 2
      then have "mid \<le> r \<and> r < hi" using rb by blast
      then show ?thesis using lm by linarith
    qed
  qed
  have 3: "\<forall>e \<in> set (fst a @ fst b). \<forall>r. stepRank e = Some r \<and> stepError h e \<noteq> None \<longrightarrow>
             snd b \<noteq> None \<and> (\<forall>r' \<in> set (teardownSteps (fst a @ fst b)). r' \<le> r)"
  proof (intro ballI allI impI)
    fix e r assume e: "e \<in> set (fst a @ fst b)" and f: "stepRank e = Some r \<and> stepError h e \<noteq> None"
    have "e \<notin> set (fst a)" using nofail [of e r] f by auto
    then have eb: "e \<in> set (fst b)" using e by simp
    from failb [OF eb, of r] f have nb: "snd b \<noteq> None"
      and le: "\<forall>r' \<in> set (teardownSteps (fst b)). r' \<le> r" by auto
    have rin: "r \<in> set (teardownSteps (fst b))" using in_teardownSteps [of e r "fst b"] f eb by auto
    have "\<forall>r' \<in> set (teardownSteps (fst a @ fst b)). r' \<le> r"
    proof
      fix r' assume "r' \<in> set (teardownSteps (fst a @ fst b))"
      then consider "r' \<in> set (teardownSteps (fst a))" | "r' \<in> set (teardownSteps (fst b))"
        unfolding teardownSteps_append by auto
      then show "r' \<le> r"
      proof cases
        case 1
        then have "r' < r" using cross rin by blast
        then show ?thesis by simp
      next
        case 2
        then show ?thesis using le by blast
      qed
    qed
    with nb show "snd b \<noteq> None \<and> (\<forall>r' \<in> set (teardownSteps (fst a @ fst b)). r' \<le> r)" by blast
  qed
  show ?thesis unfolding eq keepsOrder_def fst_conv snd_conv using 1 2 3 by blast
qed

lemmas stepsSimps = teardownSteps_Cons teardownSteps_Nil

lemma keepsOrder_deleteThinPool: "keepsOrder h 0 1 (deleteThinPool h vg)"
  by (simp add: keepsOrder_def deleteThinPool_def stepsSimps split: option.splits sum.splits)

lemma keepsOrder_deleteVolumeGroup: "keepsOrder h 1 2 (deleteVolumeGroup h v)"
  by (simp add: keepsOrder_def deleteVolumeGroup_def stepsSimps split: option.splits)

lemma keepsOrder_updateRegistry: "keepsOrder h 2 3 (updateRegistry h c)"
  by (simp add: keepsOrder_def updateRegistry_def stepsSimps split: option.splits)

lemma keepsOrder_removeStatus: "keepsOrder h 3 4 (removeStatus h)"
  by (simp add: keepsOrder_def removeStatus_def stepsSimps split: option.splits)

lemma keepsOrder_removeFinalizer: "keepsOrder h 4 5 (removeFinalizer h vg)"
  by (simp add: keepsOrder_def removeFinalizer_def stepsSimps)

lemma keepsOrder_noStep: "stepRank e = None \<Longrightarrow> keepsOrder h lo lo ([e], r)"
  by (simp add: keepsOrder_def stepsSimps)

lemma keepsOrder_teardown: "keepsOrder h 0 2 (teardown h vg)"
proof (cases "getVG h (lvgName vg)")
  case (Inl err)
  then show ?thesis
    by (simp add: teardown_def keepsOrder_def stepsSimps)
next
  case (Inr v)
  have 1: "keepsOrder h 0 2 (andThen (deleteThinPool h vg) (deleteVolumeGroup h v))"
    by (rule keepsOrder_andThen [OF keepsOrder_deleteThinPool keepsOrder_deleteVolumeGroup]) simp_all
  have 0: "keepsOrder h 0 0 ([GetVG (lvgName vg)], None)"
    by (rule keepsOrder_noStep) simp
  have "keepsOrder h 0 2 (andThen ([GetVG (lvgName vg)], None)
                      (andThen (deleteThinPool h vg) (deleteVolumeGroup h v)))"
    by (rule keepsOrder_andThen [OF 0 1]) simp_all
  then show ?thesis using Inr by (simp add: teardown_def)
qed

lemma keepsOrder_processDelete: "keepsOrder h 0 5 (processDelete h vg)"
proof (cases "lvmdLoad h")
  case (Inl err)
  then show ?thesis
    by (simp add: processDelete_def keepsOrder_def stepsSimps)
next
  case (Inr loaded)
  define c where "c = (case loaded of None \<Rightarrow> None
      | Some config \<Rightarrow> Some (config\<lparr>DeviceClasses := removeDeviceClass (lvgName vg) (DeviceClasses config)\<rparr>))"
  have 1: "keepsOrder h 3 5 (andThen (removeStatus h) (removeFinalizer h vg))"
    by (rule keepsOrder_andThen [OF keepsOrder_removeStatus keepsOrder_removeFinalizer]) simp_all
  have 2: "keepsOrder h 2 5 (andThen (updateRegistry h c) (andThen (removeStatus h) (removeFinalizer h vg)))"
    by (rule keepsOrder_andThen [OF keepsOrder_updateRegistry 1]) simp_all
  have 3: "keepsOrder h 0 5 (andThen (teardown h vg)
             (andThen (updateRegistry h c) (andThen (removeStatus h) (removeFinalizer h vg))))"
    by (rule keepsOrder_andThen [OF keepsOrder_teardown 2]) simp_all
  have 0: "keepsOrder h 0 0 ([LvmdLoad], None)"
    by (rule keepsOrder_noStep) simp
  have "keepsOrder h 0 5 (andThen ([LvmdLoad], None) (andThen (teardown h vg)
             (andThen (updateRegistry h c) (andThen (removeStatus h) (removeFinalizer h vg)))))"
    by (rule keepsOrder_andThen [OF 0 3]) simp_all
  then show ?thesis using Inr by (simp add: processDelete_def c_def Let_def)
qed

lemma andThen_None: "(snd (andThen a b) = None) = (snd a = None \<and> snd b = None)"
  by (cases a; cases "snd a") (auto simp: andThen_def)

lemma andThen_fst: "snd a = None \<Longrightarrow> fst (andThen a b) = fst a @ fst b"
  by (cases a) (simp add: andThen_def)

lemma andThen_snd: "snd a = None \<Longrightarrow> snd (andThen a b) = snd b"
  by (cases a) (simp add: andThen_def)

lemma andThen_failed: "snd a \<noteq> None \<Longrightarrow> andThen a b = a"
  by (cases a) (auto simp: andThen_def)

lemma deleteThinPool_plan:
  "snd (deleteThinPool h vg) = None
     \<Longrightarrow> teardownSteps (fst (deleteThinPool h vg)) = (if thinPoolFound h vg then [0] else [])"
  by (auto simp: deleteThinPool_def thinPoolFound_def stepsSimps split: option.splits sum.splits if_splits)

lemma deleteVolumeGroup_plan:
  "snd (deleteVolumeGroup h v) = None \<Longrightarrow> teardownSteps (fst (deleteVolumeGroup h v)) = [1]"
  by (auto simp: deleteVolumeGroup_def stepsSimps split: option.splits)

lemma teardown_plan:
  assumes "snd (teardown h vg) = None"
  shows "teardownSteps (fst (teardown h vg))
           = (if vgFound h vg \<and> thinPoolFound h vg then [0] else []) @ (if vgFound h vg then [1] else [])"
proof (cases "getVG h (lvgName vg)")
  case (Inl err)
  then show ?thesis by (simp add: teardown_def vgFound_def stepsSimps)
next
  case (Inr v)
  with assms have ok: "snd (deleteThinPool h vg) = None" "snd (deleteVolumeGroup h v) = None"
    by (simp_all add: teardown_def andThen_None)
  have "fst (teardown h vg) = GetVG (lvgName vg) # fst (deleteThinPool h vg) @ fst (deleteVolumeGroup h v)"
    using Inr ok by (simp add: teardown_def andThen_fst)
  then show ?thesis
    using Inr deleteThinPool_plan [OF ok(1)] deleteVolumeGroup_plan [OF ok(2)]
    by (simp add: vgFound_def stepsSimps teardownSteps_append)
qed

lemma updateRegistry_plan:
  "snd (updateRegistry h c) = None
     \<Longrightarrow> teardownSteps (fst (updateRegistry h c)) = (if c \<noteq> None then [2] else [])"
  by (auto simp: updateRegistry_def stepsSimps split: option.splits if_splits)

lemma removeStatus_plan: "teardownSteps (fst (removeStatus h)) = [3]"
  by (auto simp: removeStatus_def stepsSimps split: option.splits)

lemma removeFinalizer_plan:
  "teardownSteps (fst (removeFinalizer h vg)) = (if finalizerPresent vg then [4] else [])"
  by (auto simp: removeFinalizer_def stepsSimps)

lemma processDelete_unfold:
  assumes "lvmdLoad h = Inr loaded"
  shows "processDelete h vg =
     andThen ([LvmdLoad], None)
       (andThen (teardown h vg)
          (andThen (updateRegistry h
                      (case loaded of None \<Rightarrow> None
                       | Some config \<Rightarrow> Some (config\<lparr>DeviceClasses :=
                              removeDeviceClass (lvgName vg) (DeviceClasses config)\<rparr>)))
             (andThen (removeStatus h) (removeFinalizer h vg))))"
  using assms by (simp add: processDelete_def Let_def)

lemma prefix_andThen:
  assumes pa: "prefix (teardownSteps (fst a)) planA"
    and ea: "snd a = None \<Longrightarrow> teardownSteps (fst a) = planA"
    and pb: "prefix (teardownSteps (fst b)) planB"
  shows "prefix (teardownSteps (fst (andThen a b))) (planA @ planB)"
proof (cases "snd a")
  case None
  then show ?thesis
    using ea pb by (simp add: andThen_fst teardownSteps_append)
next
  case (Some err)
  then have "andThen a b = a" by (simp add: andThen_failed)
  then show ?thesis using pa by (simp add: prefix_prefix)
qed

lemma deleteThinPool_prefix:
  "prefix (teardownSteps (fst (deleteThinPool h vg))) (if thinPoolFound h vg then [0] else [])"
  by (auto simp: deleteThinPool_def thinPoolFound_def stepsSimps split: option.splits sum.splits)

lemma deleteVolumeGroup_prefix: "prefix (teardownSteps (fst (deleteVolumeGroup h v))) [1]"
  by (auto simp: deleteVolumeGroup_def stepsSimps split: option.splits)

lemma teardown_prefix:
  "prefix (teardownSteps (fst (teardown h vg)))
     ((if vgFound h vg \<and> thinPoolFound h vg then [0] else []) @ (if vgFound h vg then [1] else []))"
proof (cases "getVG h (lvgName vg)")
  case (Inl err)
  then show ?thesis by (simp add: teardown_def vgFound_def stepsSimps)
next
  case (Inr v)
  have "prefix (teardownSteps (fst (andThen (deleteThinPool h vg) (deleteVolumeGroup h v))))
          ((if thinPoolFound h vg then [0] else []) @ [1])"
    by (rule prefix_andThen [OF deleteThinPool_prefix deleteThinPool_plan deleteVolumeGroup_prefix])
  then show ?thesis
    using Inr by (simp add: teardown_def vgFound_def andThen_fst stepsSimps)
qed

lemma updateRegistry_prefix:
  "prefix (teardownSteps (fst (updateRegistry h c))) (if c \<noteq> None then [2] else [])"
  by (auto simp: updateRegistry_def stepsSimps split: option.splits)

lemma keepsOrder_rank:
  "keepsOrder h lo hi p \<Longrightarrow> e \<in> set (fst p) \<Longrightarrow> stepRank e = Some r \<Longrightarrow> lo \<le> r \<and> r < hi"
  using in_teardownSteps [of e r "fst p"] unfolding keepsOrder_def by auto

lemma in_andThen:
  "e \<in> set (fst (andThen a b)) \<Longrightarrow> e \<in> set (fst a) \<or> (snd a = None \<and> e \<in> set (fst b))"
  by (cases a; cases "snd a") (auto simp: andThen_def)

lemma finalizer_removed_last:
  assumes e: "UpdateFinalizerRemoved \<in> set (fst (processDelete h vg))"
  shows "snd (processDelete h vg) = clientUpdate h"
proof (cases "lvmdLoad h")
  case (Inl err)
  with e show ?thesis by (simp add: processDelete_def)
next
  case (Inr loaded)
  let ?c = "(case loaded of None \<Rightarrow> None
                       | Some config \<Rightarrow> Some (config\<lparr>DeviceClasses :=
                              removeDeviceClass (lvgName vg) (DeviceClasses config)\<rparr>))"
  note unf = processDelete_unfold [OF Inr, of vg]
  have r: "stepRank UpdateFinalizerRemoved = Some 4" by simp
  have nA: "UpdateFinalizerRemoved \<notin> set (fst (teardown h vg))"
    using keepsOrder_rank [OF keepsOrder_teardown _ r, of h vg] by auto
  have nB: "UpdateFinalizerRemoved \<notin> set (fst (updateRegistry h ?c))"
    using keepsOrder_rank [OF keepsOrder_updateRegistry _ r, of h ?c] by auto
  have nC: "UpdateFinalizerRemoved \<notin> set (fst (removeStatus h))"
    using keepsOrder_rank [OF keepsOrder_removeStatus _ r, of h] by auto
  from e have "UpdateFinalizerRemoved \<in> set (fst (andThen (teardown h vg)
          (andThen (updateRegistry h ?c) (andThen (removeStatus h) (removeFinalizer h vg)))))"
    unfolding unf by (simp add: andThen_fst)
  from in_andThen [OF this] nA
  have sA: "snd (teardown h vg) = None"
    and "UpdateFinalizerRemoved \<in> set (fst (andThen (updateRegistry h ?c)
            (andThen (removeStatus h) (removeFinalizer h vg))))" by auto
  from in_andThen [OF this(2)] nB
  have sB: "snd (updateRegistry h ?c) = None"
    and "UpdateFinalizerRemoved \<in> set (fst (andThen (removeStatus h) (removeFinalizer h vg)))" by auto
  from in_andThen [OF this(2)] nC
  have sC: "snd (removeStatus h) = None"
    and inD: "UpdateFinalizerRemoved \<in> set (fst (removeFinalizer h vg))" by auto
  from inD have "snd (removeFinalizer h vg) = clientUpdate h"
    by (auto simp: removeFinalizer_def split: if_splits)
  then show ?thesis
    unfolding unf using sA sB sC by (simp add: andThen_snd)
qed

lemma teardown_lookupFailed:
  "lvmdLoad h = Inr loaded \<Longrightarrow> lookupFailed h vg
     \<Longrightarrow> snd (teardown h vg) \<noteq> None \<and> teardownSteps (fst (teardown h vg)) = []"
  by (auto simp: lookupFailed_def teardown_def deleteThinPool_def andThen_def stepsSimps
           split: sum.splits option.splits)

lemma processDelete_lookupFailed:
  assumes "lookupFailed h vg"
  shows "snd (processDelete h vg) \<noteq> None \<and> teardownSteps (fst (processDelete h vg)) = []"
proof (cases "lvmdLoad h")
  case (Inl err)
  then show ?thesis by (simp add: processDelete_def stepsSimps)
next
  case (Inr loaded)
  note t = teardown_lookupFailed [OF Inr assms]
  note unf = processDelete_unfold [OF Inr, of vg]
  from t have "andThen (teardown h vg) rest = teardown h vg" for rest
    by (simp add: andThen_failed)
  then have "processDelete h vg = andThen ([LvmdLoad], None) (teardown h vg)"
    unfolding unf by simp
  then show ?thesis using t by (simp add: andThen_def stepsSimps)
qed

lemma stepError_step: "stepError h e \<noteq> None \<Longrightarrow> stepRank e \<noteq> None"
  by (cases e) simp_all

lemma stepFails_andThen:
  assumes a: "snd a \<noteq> None \<Longrightarrow> \<exists>e \<in> set (fst a). stepError h e \<noteq> None"
    and b: "snd b \<noteq> None \<Longrightarrow> \<exists>e \<in> set (fst b). stepError h e \<noteq> None"
    and f: "snd (andThen a b) \<noteq> None"
  shows "\<exists>e \<in> set (fst (andThen a b)). stepError h e \<noteq> None"
proof (cases "snd a")
  case None
  with f have "snd b \<noteq> None" by (simp add: andThen_snd)
  from b [OF this] show ?thesis using None by (auto simp: andThen_fst)
next
  case (Some err)
  then have "andThen a b = a" by (simp add: andThen_failed)
  with a Some show ?thesis by simp
qed

lemma deleteThinPool_stepFails:
  "\<not> lookupFailed h vg \<Longrightarrow> vgFound h vg \<Longrightarrow> lvmdLoad h = Inr loaded
     \<Longrightarrow> snd (deleteThinPool h vg) \<noteq> None
     \<Longrightarrow> \<exists>e \<in> set (fst (deleteThinPool h vg)). stepError h e \<noteq> None"
  by (auto simp: lookupFailed_def vgFound_def deleteThinPool_def split: sum.splits option.splits if_splits)

lemma deleteVolumeGroup_stepFails:
  "snd (deleteVolumeGroup h v) \<noteq> None \<Longrightarrow> \<exists>e \<in> set (fst (deleteVolumeGroup h v)). stepError h e \<noteq> None"
  by (auto simp: deleteVolumeGroup_def split: option.splits)

lemma updateRegistry_stepFails:
  "snd (updateRegistry h c) \<noteq> None \<Longrightarrow> \<exists>e \<in> set (fst (updateRegistry h c)). stepError h e \<noteq> None"
  by (auto simp: updateRegistry_def split: option.splits if_splits)

lemma removeStatus_stepFails:
  "snd (removeStatus h) \<noteq> None \<Longrightarrow> \<exists>e \<in> set (fst (removeStatus h)). stepError h e \<noteq> None"
  by (auto simp: removeStatus_def split: option.splits)

lemma removeFinalizer_stepFails:
  "snd (removeFinalizer h vg) \<noteq> None \<Longrightarrow> \<exists>e \<in> set (fst (removeFinalizer h vg)). stepError h e \<noteq> None"
  by (auto simp: removeFinalizer_def split: if_splits)

lemma teardown_stepFails:
  assumes nl: "\<not> lookupFailed h vg" and l: "lvmdLoad h = Inr loaded"
    and f: "snd (teardown h vg) \<noteq> None"
  shows "\<exists>e \<in> set (fst (teardown h vg)). stepError h e \<noteq> None"
proof (cases "getVG h (lvgName vg)")
  case (Inl err)
  with nl l have "err = VolumeGroupNotFound" by (simp add: lookupFailed_def)
  with Inl f show ?thesis by (simp add: teardown_def)
next
  case (Inr v)
  then have found: "vgFound h vg" by (simp add: vgFound_def)
  let ?p = "andThen (deleteThinPool h vg) (deleteVolumeGroup h v)"
  have eq: "teardown h vg = (GetVG (lvgName vg) # fst ?p, snd ?p)"
    using Inr by (simp add: teardown_def andThen_def)
  have p: "snd ?p \<noteq> None \<Longrightarrow> \<exists>e \<in> set (fst ?p). stepError h e \<noteq> None"
    by (rule stepFails_andThen [OF deleteThinPool_stepFails [OF nl found l] deleteVolumeGroup_stepFails])
  from f have "snd ?p \<noteq> None" unfolding eq by simp
  from p [OF this] show ?thesis unfolding eq by auto
qed

lemma processDelete_stepFails:
  assumes nl: "\<not> lookupFailed h vg" and f: "snd (processDelete h vg) \<noteq> None"
  shows "\<exists>e \<in> set (fst (processDelete h vg)). stepError h e \<noteq> None"
proof (cases "lvmdLoad h")
  case (Inl err)
  with nl show ?thesis by (simp add: lookupFailed_def)
next
  case (Inr loaded)
  let ?c = "(case loaded of None \<Rightarrow> None
                       | Some config \<Rightarrow> Some (config\<lparr>DeviceClasses :=
                              removeDeviceClass (lvgName vg) (DeviceClasses config)\<rparr>))"
  let ?p3 = "andThen (removeStatus h) (removeFinalizer h vg)"
  let ?p2 = "andThen (updateRegistry h ?c) ?p3"
  let ?p1 = "andThen (teardown h vg) ?p2"
  note unf = processDelete_unfold [OF Inr, of vg]
  have eq: "processDelete h vg = (LvmdLoad # fst ?p1, snd ?p1)"
    unfolding unf by (simp add: andThen_def)
  have 3: "snd ?p3 \<noteq> None \<Longrightarrow> \<exists>e \<in> set (fst ?p3). stepError h e \<noteq> None"
    by (rule stepFails_andThen [OF removeStatus_stepFails removeFinalizer_stepFails])
  have 2: "snd ?p2 \<noteq> None \<Longrightarrow> \<exists>e \<in> set (fst ?p2). stepError h e \<noteq> None"
    by (rule stepFails_andThen [OF updateRegistry_stepFails 3])
  have 1: "snd ?p1 \<noteq> None \<Longrightarrow> \<exists>e \<in> set (fst ?p1). stepError h e \<noteq> None"
    by (rule stepFails_andThen [OF teardown_stepFails [OF nl Inr] 2])
  from f have "snd ?p1 \<noteq> None" unfolding eq by simp
  from 1 [OF this] show ?thesis unfolding eq by auto
qed

lemma processDelete_plan:
  assumes ok: "snd (processDelete h vg) = None"
  shows "teardownSteps (fst (processDelete h vg)) = deletionPlan h vg"
proof (cases "lvmdLoad h")
  case (Inl err)
  with ok show ?thesis by (simp add: processDelete_def)
next
  case (Inr loaded)
  let ?c = "(case loaded of None \<Rightarrow> None
                       | Some config \<Rightarrow> Some (config\<lparr>DeviceClasses :=
                              removeDeviceClass (lvgName vg) (DeviceClasses config)\<rparr>))"
  note unf = processDelete_unfold [OF Inr, of vg]
  have nl: "\<not> lookupFailed h vg" using ok processDelete_lookupFailed [of h vg] by blast
  from ok have s: "snd (teardown h vg) = None" "snd (updateRegistry h ?c) = None"
      "snd (removeStatus h) = None" "snd (removeFinalizer h vg) = None"
    unfolding unf by (simp_all add: andThen_None)
  have tr: "fst (processDelete h vg) = LvmdLoad # fst (teardown h vg) @ fst (updateRegistry h ?c)
              @ fst (removeStatus h) @ fst (removeFinalizer h vg)"
    unfolding unf using s by (simp add: andThen_fst andThen_None)
  have c: "(?c \<noteq> None) = configLoaded h"
    using Inr by (simp add: configLoaded_def split: option.splits)
  show ?thesis
    unfolding tr deletionPlan_def
    using teardown_plan [OF s(1)] updateRegistry_plan [OF s(2)] removeStatus_plan [of h]
      removeFinalizer_plan [of h vg] c nl
    by (simp add: stepsSimps teardownSteps_append)
qed

lemma processDelete_prefix: "prefix (teardownSteps (fst (processDelete h vg))) (deletionPlan h vg)"
proof (cases "lookupFailed h vg")
  case True
  then show ?thesis using processDelete_lookupFailed [of h vg] by simp
next
  case nl: False
  show ?thesis
  proof (cases "lvmdLoad h")
    case (Inl err)
    then show ?thesis by (simp add: processDelete_def stepsSimps)
  next
    case (Inr loaded)
    let ?c = "(case loaded of None \<Rightarrow> None
                         | Some config \<Rightarrow> Some (config\<lparr>DeviceClasses :=
                                removeDeviceClass (lvgName vg) (DeviceClasses config)\<rparr>))"
    note unf = processDelete_unfold [OF Inr, of vg]
    have c: "(?c \<noteq> None) = configLoaded h"
      using Inr by (simp add: configLoaded_def split: option.splits)
    have 1: "prefix (teardownSteps (fst (andThen (removeStatus h) (removeFinalizer h vg))))
               ([3] @ (if finalizerPresent vg then [4] else []))"
      by (rule prefix_andThen) (simp_all add: removeStatus_plan removeFinalizer_plan)
    have 2: "prefix (teardownSteps (fst (andThen (updateRegistry h ?c)
                  (andThen (removeStatus h) (removeFinalizer h vg)))))
               ((if ?c \<noteq> None then [2] else []) @ [3] @ (if finalizerPresent vg then [4] else []))"
      by (rule prefix_andThen [OF updateRegistry_prefix updateRegistry_plan 1])
    have 3: "prefix (teardownSteps (fst (andThen (teardown h vg) (andThen (updateRegistry h ?c)
                  (andThen (removeStatus h) (removeFinalizer h vg))))))
               (((if vgFound h vg \<and> thinPoolFound h vg then [0] else []) @ (if vgFound h vg then [1] else []))
                @ (if ?c \<noteq> None then [2] else []) @ [3] @ (if finalizerPresent vg then [4] else []))"
      by (rule prefix_andThen [OF teardown_prefix teardown_plan 2])
    show ?thesis
      unfolding unf deletionPlan_def using 3 c nl by (simp add: andThen_fst stepsSimps)
  qed
qed

lemma processDelete_failure_iff:
  assumes nl: "\<not> lookupFailed h vg"
  shows "(snd (processDelete h vg) = None) = (\<forall>e \<in> set (fst (processDelete h vg)). stepError h e = None)"
proof
  assume ok: "snd (processDelete h vg) = None"
  show "\<forall>e \<in> set (fst (processDelete h vg)). stepError h e = None"
  proof (rule ballI, rule ccontr)
    fix e assume e: "e \<in> set (fst (processDelete h vg))" and f: "stepError h e \<noteq> None"
    from stepError_step [OF f] obtain r where r: "stepRank e = Some r" by blast
    from keepsOrder_processDelete [of h vg, unfolded keepsOrder_def] e r f
    have "snd (processDelete h vg) \<noteq> None" by blast
    with ok show False by simp
  qed
next
  assume q: "\<forall>e \<in> set (fst (processDelete h vg)). stepError h e = None"
  show "snd (processDelete h vg) = None"
  proof (rule ccontr)
    assume "snd (processDelete h vg) \<noteq> None"
    from processDelete_stepFails [OF nl this] obtain e where
      "e \<in> set (fst (processDelete h vg))" "stepError h e \<noteq> None" by blast
    with q show False by simp
  qed
qed

lemma deletionPlan_nonempty: "\<not> lookupFailed h vg \<Longrightarrow> deletionPlan h vg \<noteq> []"
  by (simp add: deletionPlan_def)

lemma processDelete_first_step:
  assumes nl: "\<not> lookupFailed h vg"
  shows "teardownSteps (fst (processDelete h vg)) \<noteq> []
       \<and> hd (teardownSteps (fst (processDelete h vg))) = hd (deletionPlan h vg)"
proof -
  have ne: "teardownSteps (fst (processDelete h vg)) \<noteq> []"
  proof (cases "snd (processDelete h vg)")
    case None
    then show ?thesis using processDelete_plan [of h vg] deletionPlan_nonempty [OF nl] by simp
  next
    case (Some err)
    then have "snd (processDelete h vg) \<noteq> None" by simp
    from processDelete_stepFails [OF nl this] obtain e where
      e: "e \<in> set (fst (processDelete h vg))" and f: "stepError h e \<noteq> None" by blast
    from stepError_step [OF f] obtain r where "stepRank e = Some r" by blast
    from in_teardownSteps [OF this e] show ?thesis by auto
  qed
  from processDelete_prefix [of h vg] obtain zs where
    "deletionPlan h vg = teardownSteps (fst (processDelete h vg)) @ zs"
    by (auto simp: prefix_def)
  then have "hd (deletionPlan h vg) = hd (teardownSteps (fst (processDelete h vg)))"
    using ne by simp
  with ne show ?thesis by simp
qed

lemma processDelete_skips:
  assumes "stepRank e = Some r" and "r \<notin> set (deletionPlan h vg)"
  shows "e \<notin> set (fst (processDelete h vg))"
proof
  assume "e \<in> set (fst (processDelete h vg))"
  from in_teardownSteps [OF assms(1) this] have "r \<in> set (teardownSteps (fst (processDelete h vg)))" .
  then have "r \<in> set (deletionPlan h vg)"
    using processDelete_prefix [of h vg] set_mono_prefix by blast
  with assms(2) show False by simp
qed

lemma groupAbsent_plan:
  assumes l: "\<not> isl (lvmdLoad h)" and a: "groupAbsent h vg"
  shows "\<not> lookupFailed h vg"
    and "deletionPlan h vg = (if configLoaded h then [2] else []) @ [3] @ (if finalizerPresent vg then [4] else [])"
proof -
  from l obtain loaded where il: "lvmdLoad h = Inr loaded" by (cases "lvmdLoad h") simp_all
  show nl: "\<not> lookupFailed h vg" using il a by (simp add: lookupFailed_def groupAbsent_def)
  show "deletionPlan h vg = (if configLoaded h then [2] else []) @ [3] @ (if finalizerPresent vg then [4] else [])"
    using nl a by (simp add: deletionPlan_def groupAbsent_def vgFound_def)
qed

lemma thinPoolAbsent_plan:
  assumes l: "\<not> isl (lvmdLoad h)" and g: "getVG h (lvgName vg) = Inr v" and a: "thinPoolAbsent h vg"
  shows "\<not> lookupFailed h vg"
    and "deletionPlan h vg = [1] @ (if configLoaded h then [2] else []) @ [3] @ (if finalizerPresent vg then [4] else [])"
proof -
  from l obtain loaded where il: "lvmdLoad h = Inr loaded" by (cases "lvmdLoad h") simp_all
  show nl: "\<not> lookupFailed h vg"
    using il g a by (auto simp: lookupFailed_def thinPoolAbsent_def split: option.splits)
  show "deletionPlan h vg = [1] @ (if configLoaded h then [2] else []) @ [3] @ (if finalizerPresent vg then [4] else [])"
    using nl g a by (auto simp: deletionPlan_def thinPoolAbsent_def thinPoolFound_def vgFound_def split: option.splits)
qed

lemma processDelete_issues_DeleteVG:
  assumes l: "\<not> isl (lvmdLoad h)" and g: "getVG h (lvgName vg) = Inr v" and a: "thinPoolAbsent h vg"
  shows "DeleteVG v \<in> set (fst (processDelete h vg))"
proof -
  from l obtain loaded where il: "lvmdLoad h = Inr loaded" by (cases "lvmdLoad h") simp_all
  from a obtain config where c: "specThinPoolConfig vg = Some config"
    and e: "lvExists h (tpName config) (lvgName vg) = Inr False"
    by (auto simp: thinPoolAbsent_def split: option.splits)
  have "DeleteVG v \<in> set (fst (deleteVolumeGroup h v))"
    by (simp add: deleteVolumeGroup_def split: option.splits)
  moreover have "deleteThinPool h vg = ([LVExists (tpName config) (lvgName vg)], None)"
    using c e by (simp add: deleteThinPool_def)
  ultimately have "DeleteVG v \<in> set (fst (teardown h vg))"
    using g by (simp add: teardown_def andThen_def split_beta)
  then show ?thesis
    unfolding processDelete_unfold [OF il, of vg]
    by (cases "teardown h vg"; cases "snd (teardown h vg)") (auto simp: andThen_def)
qed

text \<open>C1: in every deletion pass the steps that \<^verbatim>\<open>processDelete\<close> issues are an initial part
  of the plan thin-pool delete, volume-group delete, registry update or delete, node-status
  delete, finalizer removal, from which the steps with an absent target (no thin pool, no
  volume group, no config file, no finalizer) are left out; they come in strictly increasing
  order; a pass without error issues the whole plan; a step that fails makes the pass return
  an error with no later step issued; and the finalizer is removed only when every step
  before it succeeded, the result of the pass being that of the update.  A lookup that fails
  ends the pass with an error before any step.  When no lookup fails, the pass returns an
  error only if a step that it issued failed, and its first step is the first step of the
  plan: with the volume group reported not found, no thin pool and no volume group is
  deleted and the pass starts at the registry step (at the node-status delete when there is
  no config file); with the thin pool reported absent, no thin pool is deleted and the pass
  starts at the volume-group delete.\<close>

theorem deletion_order:
  "prefix (teardownSteps (fst (processDelete h vg))) (deletionPlan h vg)
   \<and> sorted_wrt (<) (teardownSteps (fst (processDelete h vg)))
   \<and> (snd (processDelete h vg) = None \<longrightarrow>
         teardownSteps (fst (processDelete h vg)) = deletionPlan h vg)
   \<and> (\<forall>e \<in> set (fst (processDelete h vg)). \<forall>r.
         stepRank e = Some r \<and> stepError h e \<noteq> None \<longrightarrow>
           snd (processDelete h vg) \<noteq> None
           \<and> (\<forall>r' \<in> set (teardownSteps (fst (processDelete h vg))). r' \<le> r))
   \<and> (UpdateFinalizerRemoved \<in> set (fst (processDelete h vg)) \<longrightarrow>
         snd (processDelete h vg) = clientUpdate h)
   \<and> (lookupFailed h vg \<longrightarrow>
         snd (processDelete h vg) \<noteq> None \<and> teardownSteps (fst (processDelete h vg)) = [])
   \<and> (\<not> lookupFailed h vg \<longrightarrow>
         (snd (processDelete h vg) = None)
            = (\<forall>e \<in> set (fst (processDelete h vg)). stepError h e = None)
         \<and> teardownSteps (fst (processDelete h vg)) \<noteq> []
         \<and> hd (teardownSteps (fst (processDelete h vg))) = hd (deletionPlan h vg))
   \<and> (\<not> isl (lvmdLoad h) \<and> groupAbsent h vg \<longrightarrow>
         \<not> lookupFailed h vg
         \<and> (\<forall>lv g. DeleteLV lv g \<notin> set (fst (processDelete h vg)))
         \<and> (\<forall>v. DeleteVG v \<notin> set (fst (processDelete h vg)))
         \<and> hd (teardownSteps (fst (processDelete h vg))) = (if configLoaded h then 2 else 3))
   \<and> (\<forall>v. \<not> isl (lvmdLoad h) \<and> getVG h (lvgName vg) = Inr v \<and> thinPoolAbsent h vg \<longrightarrow>
         \<not> lookupFailed h vg
         \<and> (\<forall>lv g. DeleteLV lv g \<notin> set (fst (processDelete h vg)))
         \<and> DeleteVG v \<in> set (fst (processDelete h vg))
         \<and> hd (teardownSteps (fst (processDelete h vg))) = 1)"
proof -
  note k = keepsOrder_processDelete [of h vg, unfolded keepsOrder_def]
  have old: "prefix (teardownSteps (fst (processDelete h vg))) (deletionPlan h vg)
   \<and> sorted_wrt (<) (teardownSteps (fst (processDelete h vg)))
   \<and> (snd (processDelete h vg) = None \<longrightarrow>
         teardownSteps (fst (processDelete h vg)) = deletionPlan h vg)
   \<and> (\<forall>e \<in> set (fst (processDelete h vg)). \<forall>r.
         stepRank e = Some r \<and> stepError h e \<noteq> None \<longrightarrow>
           snd (processDelete h vg) \<noteq> None
           \<and> (\<forall>r' \<in> set (teardownSteps (fst (processDelete h vg))). r' \<le> r))
   \<and> (UpdateFinalizerRemoved \<in> set (fst (processDelete h vg)) \<longrightarrow>
         snd (processDelete h vg) = clientUpdate h)"
    using processDelete_prefix [of h vg] k processDelete_plan [of h vg]
      finalizer_removed_last [of h vg]
    by blast
  have a: "lookupFailed h vg \<longrightarrow>
         snd (processDelete h vg) \<noteq> None \<and> teardownSteps (fst (processDelete h vg)) = []"
    using processDelete_lookupFailed [of h vg] by blast
  have b: "\<not> lookupFailed h vg \<longrightarrow>
         (snd (processDelete h vg) = None)
            = (\<forall>e \<in> set (fst (processDelete h vg)). stepError h e = None)
         \<and> teardownSteps (fst (processDelete h vg)) \<noteq> []
         \<and> hd (teardownSteps (fst (processDelete h vg))) = hd (deletionPlan h vg)"
    using processDelete_failure_iff [of h vg] processDelete_first_step [of h vg] by blast
  have c: "\<not> lookupFailed h vg
         \<and> (\<forall>lv g. DeleteLV lv g \<notin> set (fst (processDelete h vg)))
         \<and> (\<forall>v. DeleteVG v \<notin> set (fst (processDelete h vg)))
         \<and> hd (teardownSteps (fst (processDelete h vg))) = (if configLoaded h then 2 else 3)"
    if l: "\<not> isl (lvmdLoad h)" and g: "groupAbsent h vg"
  proof -
    note nl = groupAbsent_plan(1) [OF l g]
    note plan = groupAbsent_plan(2) [OF l g]
    have 0: "DeleteLV lv g \<notin> set (fst (processDelete h vg))" for lv g
      by (rule processDelete_skips [of _ 0]) (simp_all add: plan)
    have 1: "DeleteVG v \<notin> set (fst (processDelete h vg))" for v
      by (rule processDelete_skips [of _ 1]) (simp_all add: plan)
    have "hd (teardownSteps (fst (processDelete h vg))) = (if configLoaded h then 2 else 3)"
      using processDelete_first_step [OF nl] by (simp add: plan)
    with nl 0 1 show ?thesis by blast
  qed
  have d: "\<not> lookupFailed h vg
         \<and> (\<forall>lv g. DeleteLV lv g \<notin> set (fst (processDelete h vg)))
         \<and> DeleteVG v \<in> set (fst (processDelete h vg))
         \<and> hd (teardownSteps (fst (processDelete h vg))) = 1"
    if l: "\<not> isl (lvmdLoad h)" and g: "getVG h (lvgName vg) = Inr v" and t: "thinPoolAbsent h vg" for v
  proof -
    note nl = thinPoolAbsent_plan(1) [OF l g t]
    note plan = thinPoolAbsent_plan(2) [OF l g t]
    have 0: "DeleteLV lv g \<notin> set (fst (processDelete h vg))" for lv g
      by (rule processDelete_skips [of _ 0]) (simp_all add: plan)
    have "hd (teardownSteps (fst (processDelete h vg))) = 1"
      using processDelete_first_step [OF nl] by (simp add: plan)
    with nl 0 processDelete_issues_DeleteVG [OF l g t] show ?thesis by blast
  qed
  show ?thesis
    apply (intro conjI)
    subgoal using old by (elim conjE)
    subgoal using old by (elim conjE)
    subgoal using old by (elim conjE)
    subgoal using old by (elim conjE)
    subgoal using old by (elim conjE)
    subgoal by (rule a)
    subgoal by (rule b)
    subgoal by (intro impI, elim conjE, rule c; assumption)
    subgoal by (intro allI impI, elim conjE, rule d; assumption)
    done
qed

lemmas deletionSimps =
  processDelete_def teardown_def deleteThinPool_def deleteVolumeGroup_def
  updateRegistry_def removeStatus_def removeFinalizer_def andThen_def quietHost_def
  teardownHost_def vg1Deleted_def vg1Spec_def vg1Class_def

theorem deletion_order_witness:
  "processDelete teardownHost vg1Deleted
     = ([LvmdLoad, GetVG ''vg1'', LVExists ''thin-pool-1'' ''vg1'', DeleteLV ''thin-pool-1'' ''vg1'',
         DeleteVG vg1OnHost, LvmdDelete, RemoveStatus, UpdateFinalizerRemoved], None)
   \<and> teardownSteps (fst (processDelete teardownHost vg1Deleted)) = [0, 1, 2, 3, 4]
   \<and> groupAbsent (teardownHost\<lparr>getVG := (\<lambda>vg. Inl VolumeGroupNotFound)\<rparr>) vg1Deleted
   \<and> processDelete (teardownHost\<lparr>getVG := (\<lambda>vg. Inl VolumeGroupNotFound)\<rparr>) vg1Deleted
       = ([LvmdLoad, GetVG ''vg1'', LvmdDelete, RemoveStatus, UpdateFinalizerRemoved], None)
   \<and> hd (teardownSteps (fst (processDelete (teardownHost\<lparr>getVG := (\<lambda>vg. Inl VolumeGroupNotFound)\<rparr>)
                                 vg1Deleted))) = 2
   \<and> thinPoolAbsent (teardownHost\<lparr>lvExists := (\<lambda>lv vg. Inr False)\<rparr>) vg1Deleted
   \<and> processDelete (teardownHost\<lparr>lvExists := (\<lambda>lv vg. Inr False)\<rparr>) vg1Deleted
       = ([LvmdLoad, GetVG ''vg1'', LVExists ''thin-pool-1'' ''vg1'', DeleteVG vg1OnHost, LvmdDelete,
           RemoveStatus, UpdateFinalizerRemoved], None)
   \<and> hd (teardownSteps (fst (processDelete (teardownHost\<lparr>lvExists := (\<lambda>lv vg. Inr False)\<rparr>)
                                 vg1Deleted))) = 1
   \<and> processDelete (teardownHost\<lparr>deleteVG := (\<lambda>vg. Some (HostError ''volume group is busy''))\<rparr>) vg1Deleted
       = ([LvmdLoad, GetVG ''vg1'', LVExists ''thin-pool-1'' ''vg1'', DeleteLV ''thin-pool-1'' ''vg1'',
           DeleteVG vg1OnHost, SetStatus Failed],
          Some (Wrap ''failed to delete volume group'' (HostError ''volume group is busy'')))"
proof -
  let ?h2 = "teardownHost\<lparr>getVG := (\<lambda>vg. Inl VolumeGroupNotFound)\<rparr>"
  let ?h3 = "teardownHost\<lparr>lvExists := (\<lambda>lv vg. Inr False)\<rparr>"
  let ?h4 = "teardownHost\<lparr>deleteVG := (\<lambda>vg. Some (HostError ''volume group is busy''))\<rparr>"
  have run1: "processDelete teardownHost vg1Deleted
     = ([LvmdLoad, GetVG ''vg1'', LVExists ''thin-pool-1'' ''vg1'', DeleteLV ''thin-pool-1'' ''vg1'',
         DeleteVG vg1OnHost, LvmdDelete, RemoveStatus, UpdateFinalizerRemoved], None)"
    by (simp add: deletionSimps)
  have plan1: "deletionPlan teardownHost vg1Deleted = [0, 1, 2, 3, 4]"
    by (simp add: deletionPlan_def lookupFailed_def vgFound_def thinPoolFound_def configLoaded_def
          quietHost_def teardownHost_def vg1Deleted_def vg1Spec_def)
  from deletion_order [of teardownHost vg1Deleted]
  have "snd (processDelete teardownHost vg1Deleted) = None \<longrightarrow>
         teardownSteps (fst (processDelete teardownHost vg1Deleted)) = deletionPlan teardownHost vg1Deleted"
    by (elim conjE)
  then have steps1: "teardownSteps (fst (processDelete teardownHost vg1Deleted)) = [0, 1, 2, 3, 4]"
    using run1 plan1 by simp
  have abs2: "groupAbsent ?h2 vg1Deleted"
    by (simp add: groupAbsent_def teardownHost_def quietHost_def)
  have load2: "\<not> isl (lvmdLoad ?h2)" "configLoaded ?h2"
    by (simp_all add: configLoaded_def teardownHost_def quietHost_def)
  have run2: "processDelete ?h2 vg1Deleted
       = ([LvmdLoad, GetVG ''vg1'', LvmdDelete, RemoveStatus, UpdateFinalizerRemoved], None)"
    by (simp add: deletionSimps)
  from deletion_order [of ?h2 vg1Deleted]
  have "\<not> isl (lvmdLoad ?h2) \<and> groupAbsent ?h2 vg1Deleted \<longrightarrow>
         \<not> lookupFailed ?h2 vg1Deleted
         \<and> (\<forall>lv g. DeleteLV lv g \<notin> set (fst (processDelete ?h2 vg1Deleted)))
         \<and> (\<forall>v. DeleteVG v \<notin> set (fst (processDelete ?h2 vg1Deleted)))
         \<and> hd (teardownSteps (fst (processDelete ?h2 vg1Deleted))) = (if configLoaded ?h2 then 2 else 3)"
    by (elim conjE)
  with abs2 load2 have first2: "hd (teardownSteps (fst (processDelete ?h2 vg1Deleted))) = 2"
    by simp
  have abs3: "thinPoolAbsent ?h3 vg1Deleted"
    by (simp add: thinPoolAbsent_def teardownHost_def quietHost_def vg1Deleted_def vg1Spec_def)
  have load3: "\<not> isl (lvmdLoad ?h3)" "getVG ?h3 (lvgName vg1Deleted) = Inr vg1OnHost"
    by (simp_all add: teardownHost_def quietHost_def)
  have run3: "processDelete ?h3 vg1Deleted
       = ([LvmdLoad, GetVG ''vg1'', LVExists ''thin-pool-1'' ''vg1'', DeleteVG vg1OnHost, LvmdDelete,
           RemoveStatus, UpdateFinalizerRemoved], None)"
    by (simp add: deletionSimps)
  from deletion_order [of ?h3 vg1Deleted]
  have "\<forall>v. \<not> isl (lvmdLoad ?h3) \<and> getVG ?h3 (lvgName vg1Deleted) = Inr v \<and> thinPoolAbsent ?h3 vg1Deleted \<longrightarrow>
         \<not> lookupFailed ?h3 vg1Deleted
         \<and> (\<forall>lv g. DeleteLV lv g \<notin> set (fst (processDelete ?h3 vg1Deleted)))
         \<and> DeleteVG v \<in> set (fst (processDelete ?h3 vg1Deleted))
         \<and> hd (teardownSteps (fst (processDelete ?h3 vg1Deleted))) = 1"
    by (elim conjE)
  with abs3 load3 have first3: "hd (teardownSteps (fst (processDelete ?h3 vg1Deleted))) = 1"
    by blast
  have run4: "processDelete ?h4 vg1Deleted
       = ([LvmdLoad, GetVG ''vg1'', LVExists ''thin-pool-1'' ''vg1'', DeleteLV ''thin-pool-1'' ''vg1'',
           DeleteVG vg1OnHost, SetStatus Failed],
          Some (Wrap ''failed to delete volume group'' (HostError ''volume group is busy'')))"
    by (simp add: deletionSimps)
  from run1 steps1 abs2 run2 first2 abs3 run3 first3 run4 show ?thesis by (intro conjI)
qed

section \<open>The normal pass: status before mutation, and the device classes\<close>

lemma removeMapperReference_prelude: "e \<in> set (removeMapperReference dm d) \<Longrightarrow> preludeEvent e"
  by (induction dm d rule: removeMapperReference.induct) (auto split: option.splits if_splits)

lemma wipeDeviceLoop_prelude:
  "e \<in> set (fst (wipeDeviceLoop wipe dm name bds w)) \<Longrightarrow> preludeEvent e"
proof (induction wipe dm name bds w arbitrary: e rule: wipeDeviceLoop.induct)
  case (1 wipe dm deviceName wiped)
  then show ?case by simp
next
  case (2 wipe dm deviceName n kn dp cs rest wiped)
  show ?case
  proof (cases "kn = deviceName")
    case True
    show ?thesis
    proof (cases "wipe kn")
      case None
      from 2(5) True None have "e = WipefsWipe kn \<or> e = LogInfo ''device wiped successfully''
          \<or> (\<exists>c \<in> set cs. e \<in> set (removeMapperReference dm c))
          \<or> e \<in> set (fst (wipeDeviceLoop wipe dm deviceName rest True))"
        by (auto simp: split_beta)
      then show ?thesis
        using 2(1) [OF True None] removeMapperReference_prelude by auto
    next
      case (Some err)
      with 2(5) True show ?thesis by simp
    qed
  next
    case False
    show ?thesis
    proof (cases "length cs > 0")
      case len: True
      obtain trc rc where c: "wipeDeviceLoop wipe dm deviceName cs False = (trc, rc)"
        by (cases "wipeDeviceLoop wipe dm deviceName cs False")
      have ihc: "\<And>e. e \<in> set trc \<Longrightarrow> preludeEvent e"
        using 2(2) [OF False len] c by simp
      show ?thesis
      proof (cases rc)
        case (Inl err)
        with 2(5) False len c ihc show ?thesis by simp
      next
        case (Inr childWiped)
        have ihr: "\<And>e. e \<in> set (fst (wipeDeviceLoop wipe dm deviceName rest
                       (if childWiped then True else wiped))) \<Longrightarrow> preludeEvent e"
          using 2(3) [OF False len c [unfolded Inr, symmetric] refl] by simp
        from 2(5) False len c Inr
        have "e \<in> set trc \<or> e \<in> set (fst (wipeDeviceLoop wipe dm deviceName rest
                       (if childWiped then True else wiped)))"
          by (auto simp: split_beta)
        then show ?thesis using ihc ihr by blast
      qed
    next
      case len: False
      with 2(5) False 2(4) [OF False len] show ?thesis by simp
    qed
  qed
qed

lemma wipeRequiredLoop_prelude:
  "e \<in> set (fst (wipeRequiredLoop wipe dm claimed bds paths w)) \<Longrightarrow> preludeEvent e"
proof (induction paths arbitrary: w)
  case Nil
  then show ?case by simp
next
  case (Cons p paths)
  obtain trd r where d: "wipeDevice wipe dm p bds = (trd, r)"
    by (cases "wipeDevice wipe dm p bds")
  have trd: "\<And>e. e \<in> set trd \<Longrightarrow> preludeEvent e"
    using wipeDeviceLoop_prelude [of _ wipe dm p bds False] d by (simp add: wipeDevice_def)
  show ?case
  proof (cases "claimed p")
    case True
    with Cons show ?thesis by simp
  next
    case False
    show ?thesis
    proof (cases r)
      case (Inl err)
      with Cons.prems False d trd show ?thesis by simp
    next
      case (Inr deviceWiped)
      with Cons.prems False d
      have "e \<in> set trd \<or> e \<in> set (fst (wipeRequiredLoop wipe dm claimed bds paths
                 (if deviceWiped then True else w)))"
        by (auto simp: split_beta)
      then show ?thesis using trd Cons.IH by blast
    qed
  qed
qed

lemma wipeOptionalLoop_prelude:
  "e \<in> set (fst (wipeOptionalLoop wipe dm claimed bds paths w)) \<Longrightarrow> preludeEvent e"
proof (induction paths arbitrary: w)
  case Nil
  then show ?case by simp
next
  case (Cons p paths)
  obtain trd r where d: "wipeDevice wipe dm p bds = (trd, r)"
    by (cases "wipeDevice wipe dm p bds")
  have trd: "\<And>e. e \<in> set trd \<Longrightarrow> preludeEvent e"
    using wipeDeviceLoop_prelude [of _ wipe dm p bds False] d by (simp add: wipeDevice_def)
  show ?case
  proof (cases "claimed p")
    case True
    with Cons show ?thesis by simp
  next
    case False
    show ?thesis
    proof (cases r)
      case (Inl err)
      with Cons.prems False d
      have "e \<in> set trd \<or> e = LogInfo ''failed to wipe device %s: %w''
              \<or> e \<in> set (fst (wipeOptionalLoop wipe dm claimed bds paths w))"
        by (auto simp: split_beta)
      then show ?thesis using trd Cons.IH by auto
    next
      case (Inr deviceWiped)
      with Cons.prems False d
      have "e \<in> set trd \<or> e \<in> set (fst (wipeOptionalLoop wipe dm claimed bds paths
                 (if deviceWiped then True else w)))"
        by (auto simp: split_beta)
      then show ?thesis using trd Cons.IH by blast
    qed
  qed
qed

lemma wipeDevicesIfNecessary_prelude:
  assumes "e \<in> set (fst (wipeDevicesIfNecessary wipe dm claimed vg bds))"
  shows "preludeEvent e"
proof (cases "specDeviceSelector vg")
  case None
  with assms show ?thesis by (simp add: wipeDevicesIfNecessary_def)
next
  case (Some sel)
  show ?thesis
  proof (cases "ForceWipeDevicesAndDestroyAllData sel = Some True")
    case False
    with assms Some show ?thesis
      by (auto simp: wipeDevicesIfNecessary_def split: option.splits)
  next
    case True
    obtain tr r where R: "wipeRequiredLoop wipe dm claimed bds (Paths sel) False = (tr, r)"
      by (cases "wipeRequiredLoop wipe dm claimed bds (Paths sel) False")
    have tr: "\<And>e. e \<in> set tr \<Longrightarrow> preludeEvent e"
      using wipeRequiredLoop_prelude [of _ wipe dm claimed bds "Paths sel" False] R by simp
    show ?thesis
    proof (cases r)
      case (Inl err)
      with assms Some True R tr show ?thesis by (simp add: wipeDevicesIfNecessary_def)
    next
      case (Inr wiped)
      with assms Some True R
      have "e \<in> set tr \<or> e \<in> set (fst (wipeOptionalLoop wipe dm claimed bds (OptionalPaths sel) wiped))"
        by (auto simp: wipeDevicesIfNecessary_def split_beta)
      then show ?thesis using tr wipeOptionalLoop_prelude by blast
    qed
  qed
qed

lemma preludeEvent_quiet: "preludeEvent e \<Longrightarrow> \<not> isMutation e \<and> (\<forall>c. e \<noteq> LvmdSave c) \<and> e \<noteq> SetStatus Progressing"
  by (cases e) auto

lemma selectAndReconcile_shape:
  "\<exists>pre body. fst (selectAndReconcile h vg bds cfg) = pre @ body
      \<and> (\<forall>e \<in> set pre. preludeEvent e)
      \<and> (body = [] \<or> (\<exists>vgs avail. body = fst (reconcileDevices h vg vgs avail cfg)))"
proof (cases "getNewDevicesToBeAdded h bds")
  case (Inl err)
  then have "fst (selectAndReconcile h vg bds cfg) = [GetNewDevices] @ []"
    by (simp add: selectAndReconcile_def)
  then show ?thesis by force
next
  case (Inr newDevices)
  show ?thesis
  proof (cases "listVGs h")
    case (Inl err)
    with Inr have "fst (selectAndReconcile h vg bds cfg) = [GetNewDevices, ListVGs] @ []"
      by (simp add: selectAndReconcile_def)
    then show ?thesis by force
  next
    case vgs: (Inr vgs)
    with Inr have "fst (selectAndReconcile h vg bds cfg)
        = [GetNewDevices, ListVGs] @ fst (reconcileDevices h vg vgs (filterDevices h newDevices) cfg)"
      by (simp add: selectAndReconcile_def split_beta)
    moreover have "\<forall>e \<in> set [GetNewDevices, ListVGs]. preludeEvent e" by simp
    ultimately show ?thesis by blast
  qed
qed

lemma shape_prepend:
  assumes "\<exists>pre body. tr = pre @ body \<and> (\<forall>e \<in> set pre. preludeEvent e) \<and> Q body"
    and "\<forall>e \<in> set p. preludeEvent e"
  shows "\<exists>pre body. p @ tr = pre @ body \<and> (\<forall>e \<in> set pre. preludeEvent e) \<and> Q body"
proof -
  from assms(1) obtain pre body where "tr = pre @ body" "\<forall>e \<in> set pre. preludeEvent e" "Q body"
    by blast
  then have "p @ tr = (p @ pre) @ body \<and> (\<forall>e \<in> set (p @ pre). preludeEvent e) \<and> Q body"
    using assms(2) by auto
  then show ?thesis by blast
qed

lemma shape_prelude:
  assumes "\<forall>e \<in> set p. preludeEvent e" and "Q []"
  shows "\<exists>pre body. p = pre @ body \<and> (\<forall>e \<in> set pre. preludeEvent e) \<and> Q body"
proof -
  have "p = p @ [] \<and> (\<forall>e \<in> set p. preludeEvent e) \<and> Q []" using assms by simp
  then show ?thesis by blast
qed

lemma reconcile_shape:
  assumes nd: "\<not> deletionRequested vg"
  shows "\<exists>pre body. fst (reconcile h vg) = pre @ body
      \<and> (\<forall>e \<in> set pre. preludeEvent e)
      \<and> (body = [] \<or> (\<exists>vgs avail. body = fst (reconcileDevices h vg vgs avail (startConfig h))))"
proof (cases "finalizerPresent vg")
  case False
  with nd have "fst (reconcile h vg) = [UpdateFinalizerAdded]" by (simp add: reconcile_def Let_def)
  then show ?thesis by (simp add: shape_prelude)
next
  case fin: True
  show ?thesis
  proof (cases "lvmdLoad h")
    case (Inl err)
    with nd fin have "fst (reconcile h vg) = [LvmdLoad, SetStatus Failed]" by (simp add: reconcile_def Let_def)
    then show ?thesis by (simp add: shape_prelude)
  next
    case (Inr loaded)
    have cfg: "(case loaded of None \<Rightarrow> \<lparr>SocketName = defaultLVMdSocket h, DeviceClasses = []\<rparr>
                | Some config \<Rightarrow> config) = startConfig h"
      using Inr by (simp add: startConfig_def split: option.splits)
    show ?thesis
    proof (cases "listBlockDevices h")
      case (Inl err)
      with nd fin Inr have "fst (reconcile h vg) = [LvmdLoad, ListBlockDevices]"
        by (simp add: reconcile_def Let_def)
      then show ?thesis by (simp add: shape_prelude)
    next
      case bds: (Inr bds)
      obtain trw rw where w: "wipeDevicesIfNecessary (wipefsWipe h) (dmsetupRemove h) (alreadyInStatus h) vg bds
                                = (trw, rw)"
        by (cases "wipeDevicesIfNecessary (wipefsWipe h) (dmsetupRemove h) (alreadyInStatus h) vg bds")
      have trw: "\<forall>e \<in> set trw. preludeEvent e"
        using wipeDevicesIfNecessary_prelude [of _ "wipefsWipe h" "dmsetupRemove h" "alreadyInStatus h" vg bds] w
        by simp
      show ?thesis
      proof (cases rw)
        case (Inl err)
        with nd fin Inr bds w have "fst (reconcile h vg) = [LvmdLoad, ListBlockDevices] @ trw"
          by (simp add: reconcile_def Let_def)
        then show ?thesis using trw by (simp add: shape_prelude)
      next
        case wiped: (Inr wiped)
        show ?thesis
        proof (cases wiped)
          case False
          with nd fin Inr bds w wiped cfg
          have eq: "fst (reconcile h vg) = ([LvmdLoad, ListBlockDevices] @ trw)
                  @ fst (selectAndReconcile h vg bds (startConfig h))"
            by (simp add: reconcile_def split_beta Let_def)
          have p: "\<forall>e \<in> set ([LvmdLoad, ListBlockDevices] @ trw). preludeEvent e"
            using trw by simp
          show ?thesis
            unfolding eq by (rule shape_prepend [OF selectAndReconcile_shape p])
        next
          case True
          show ?thesis
          proof (cases "listBlockDevicesAfterWipe h")
            case (Inl err)
            with nd fin Inr bds w wiped True
            have "fst (reconcile h vg) = [LvmdLoad, ListBlockDevices] @ trw @ [ListBlockDevices]"
              by (simp add: reconcile_def Let_def)
            then show ?thesis using trw by (simp add: shape_prelude)
          next
            case bds': (Inr bds')
            with nd fin Inr bds w wiped True cfg
            have eq: "fst (reconcile h vg) = ([LvmdLoad, ListBlockDevices] @ trw @ [ListBlockDevices])
                    @ fst (selectAndReconcile h vg bds' (startConfig h))"
              by (simp add: reconcile_def split_beta Let_def)
            have p: "\<forall>e \<in> set ([LvmdLoad, ListBlockDevices] @ trw @ [ListBlockDevices]). preludeEvent e"
              using trw by simp
            show ?thesis
              unfolding eq by (rule shape_prepend [OF selectAndReconcile_shape p])
          qed
        qed
      qed
    qed
  qed
qed

lemma addDevicesToVG_events:
  "e \<in> set (fst (addDevicesToVG ex vgs n ds)) \<Longrightarrow> \<exists>cmd args. e = ExecuteCommand cmd args"
  by (auto simp: addDevicesToVG_def Let_def split: if_splits option.splits)

lemma extendThinPool_events:
  "e \<in> set (fst (extendThinPool h n sz c)) \<Longrightarrow> e = GetVG n \<or> (\<exists>lv vg p. e = ExtendLV lv vg p)"
  by (auto simp: extendThinPool_def split: sum.splits if_splits option.splits)

lemma addThinPoolToVG_events:
  assumes "e \<in> set (fst (addThinPoolToVG h n c))"
  shows "e = ListLVs n \<or> e = GetVG n \<or> (\<exists>lv vg p. e = ExtendLV lv vg p) \<or> (\<exists>lv vg p. e = CreateLV lv vg p)"
proof (cases c)
  case None
  with assms show ?thesis by (simp add: addThinPoolToVG_def)
next
  case (Some config)
  show ?thesis
  proof (cases "listLVs h n")
    case (Inl err)
    with assms Some show ?thesis by (simp add: addThinPoolToVG_def)
  next
    case (Inr report)
    show ?thesis
    proof (cases "find (\<lambda>lv. lvName lv = tpName config) (concat report)")
      case None
      with assms Some Inr show ?thesis
        by (auto simp: addThinPoolToVG_def split: option.splits)
    next
      case lv: (Some lv)
      show ?thesis
      proof (cases "parsedLvAttr h (LvAttr lv)")
        case (Inl err)
        with assms Some Inr lv show ?thesis by (simp add: addThinPoolToVG_def)
      next
        case attr: (Inr lvAttr)
        show ?thesis
        proof (cases "VolumeType lvAttr = VolumeTypeThinPool")
          case False
          with assms Some Inr lv attr show ?thesis by (simp add: addThinPoolToVG_def)
        next
          case True
          with assms Some Inr lv attr
          have "e = ListLVs n \<or> e \<in> set (fst (extendThinPool h n (LvSize lv) config))"
            by (auto simp: addThinPoolToVG_def split: prod.splits option.splits)
          then show ?thesis using extendThinPool_events by blast
        qed
      qed
    qed
  qed
qed

lemma validateLVs_events: "e \<in> set (fst (validateLVs h vg)) \<Longrightarrow> e = ListLVs (lvgName vg)"
  by (auto simp: validateLVs_def split: option.splits sum.splits if_splits)

lemma failed_events: "e \<in> set (fst (failed tr msg err)) \<Longrightarrow> e \<in> set tr \<or> e = SetStatus Failed"
  by (auto simp: failed_def split: if_splits)

lemma setReady_events: "fst (setReady h) = [SetStatus Ready]"
  by (simp add: setReady_def split: sum.splits)

lemma syncRegistry_events:
  "e \<in> set (fst (syncRegistry h vg cfg))
     \<Longrightarrow> e = LvmdSave (ensureClass vg cfg) \<or> e = SetStatus Failed \<or> e = SetStatus Ready"
  by (auto simp: syncRegistry_def ensureClass_def Let_def setReady_events split_beta
           split: if_splits option.splits)

lemma createOrExtend_events:
  assumes "e \<in> set (fst (createOrExtend h vg vgs av cfg))"
  shows "mutationPhaseEvent vg cfg e"
proof -
  obtain tr1 r1 where a: "addDevicesToVG (executeCommand h) vgs (lvgName vg) av = (tr1, r1)"
    by (cases "addDevicesToVG (executeCommand h) vgs (lvgName vg) av")
  obtain tr2 r2 where b: "addThinPoolToVG h (lvgName vg) (specThinPoolConfig vg) = (tr2, r2)"
    by (cases "addThinPoolToVG h (lvgName vg) (specThinPoolConfig vg)")
  obtain tr3 r3 where c: "validateLVs h vg = (tr3, r3)"
    by (cases "validateLVs h vg")
  have e1: "mutationPhaseEvent vg cfg e" if "e \<in> set tr1" for e
  proof -
    from that a obtain cmd args where "e = ExecuteCommand cmd args"
      using addDevicesToVG_events [of e "executeCommand h" vgs "lvgName vg" av] by auto
    then show ?thesis by (simp add: mutationPhaseEvent_def)
  qed
  have e2: "mutationPhaseEvent vg cfg e" if "e \<in> set tr2" for e
  proof -
    from that b have "e = ListLVs (lvgName vg) \<or> e = GetVG (lvgName vg)
        \<or> (\<exists>lv vg p. e = ExtendLV lv vg p) \<or> (\<exists>lv vg p. e = CreateLV lv vg p)"
      using addThinPoolToVG_events [of e h "lvgName vg" "specThinPoolConfig vg"] by auto
    then show ?thesis by (auto simp: mutationPhaseEvent_def)
  qed
  have e3: "\<And>e. e \<in> set tr3 \<Longrightarrow> mutationPhaseEvent vg cfg e"
    using validateLVs_events [of _ h vg] c by (auto simp: mutationPhaseEvent_def)
  have e4: "\<And>e. e \<in> set (fst (syncRegistry h vg cfg)) \<Longrightarrow> mutationPhaseEvent vg cfg e"
    using syncRegistry_events [of _ h vg cfg] by (auto simp: mutationPhaseEvent_def)
  have f: "\<And>e tr msg err. e \<in> set (fst (failed tr msg err)) \<Longrightarrow>
             (\<And>x. x \<in> set tr \<Longrightarrow> mutationPhaseEvent vg cfg x) \<Longrightarrow> mutationPhaseEvent vg cfg e"
    using failed_events by (fastforce simp: mutationPhaseEvent_def)
  show ?thesis
  proof (cases r1)
    case (Some err)
    with assms a have "e \<in> set (fst (failed tr1 ''failed to create/extend volume group'' err))"
      by (simp add: createOrExtend_def)
    then show ?thesis using f e1 by blast
  next
    case n1: None
    show ?thesis
    proof (cases r2)
      case (Some err)
      with assms a b n1 have "e \<in> set (fst (failed (tr1 @ tr2) ''failed to create thin pool'' err))"
        by (simp add: createOrExtend_def)
      moreover have "\<And>x. x \<in> set (tr1 @ tr2) \<Longrightarrow> mutationPhaseEvent vg cfg x"
        using e1 e2 by auto
      ultimately show ?thesis using f by blast
    next
      case n2: None
      show ?thesis
      proof (cases r3)
        case (Some err)
        with assms a b c n1 n2
        have "e \<in> set (fst (failed (tr1 @ tr2 @ tr3)
                 ''error while validating logical volumes in existing volume group'' err))"
          by (simp add: createOrExtend_def)
        moreover have "\<And>x. x \<in> set (tr1 @ tr2 @ tr3) \<Longrightarrow> mutationPhaseEvent vg cfg x"
          using e1 e2 e3 by auto
        ultimately show ?thesis using f by blast
      next
        case n3: None
        with assms a b c n1 n2
        have "e \<in> set (tr1 @ tr2 @ tr3 @ fst (syncRegistry h vg cfg))"
          by (simp add: createOrExtend_def split_beta)
        then show ?thesis using e1 e2 e3 e4 by auto
      qed
    qed
  qed
qed

lemma addDevicesToVG_trace:
  "ds \<noteq> [] \<Longrightarrow> \<exists>cmd args. fst (addDevicesToVG ex vgs n ds) = [ExecuteCommand cmd args]"
  by (auto simp: addDevicesToVG_def Let_def split: option.splits)

lemma createOrExtend_starts:
  assumes "av \<noteq> []"
  shows "\<exists>cmd args rest. fst (createOrExtend h vg vgs av cfg) = ExecuteCommand cmd args # rest"
proof -
  from addDevicesToVG_trace [OF assms, of "executeCommand h" vgs "lvgName vg"]
  obtain cmd args where t: "fst (addDevicesToVG (executeCommand h) vgs (lvgName vg) av) = [ExecuteCommand cmd args]"
    by blast
  obtain r1 where a: "addDevicesToVG (executeCommand h) vgs (lvgName vg) av = ([ExecuteCommand cmd args], r1)"
    using t by (cases "addDevicesToVG (executeCommand h) vgs (lvgName vg) av") simp
  show ?thesis
    unfolding createOrExtend_def a
    by (auto simp: failed_def split_beta split: option.splits)
qed

lemma reconcileDevices_noDevices:
  assumes "e \<in> set (fst (reconcileDevices h vg vgs [] cfg))"
  shows "e = SetStatus Failed \<or> e = ListLVs (lvgName vg) \<or> e = SetStatus Ready"
proof -
  obtain tr r where v: "validateLVs h vg = (tr, r)" by (cases "validateLVs h vg")
  have tr: "\<And>x. x \<in> set tr \<Longrightarrow> x = ListLVs (lvgName vg)"
    using validateLVs_events [of _ h vg] v by simp
  show ?thesis
  proof (cases "\<exists>v \<in> set vgs. lvgName vg = vgName v \<and> length (PVs v) > 0")
    case False
    with assms show ?thesis by (simp add: reconcileDevices_def)
  next
    case True
    show ?thesis
    proof (cases r)
      case None
      have "fst (reconcileDevices h vg vgs [] cfg) = tr @ [SetStatus Ready]"
        using True v None by (simp add: reconcileDevices_def setReady_events split_beta)
      with assms have "e \<in> set tr \<or> e = SetStatus Ready" by auto
      then show ?thesis using tr by blast
    next
      case (Some err)
      have "fst (reconcileDevices h vg vgs [] cfg)
              = fst (failed tr ''error while validating logical volumes in existing volume group'' err)"
        using True v Some by (simp add: reconcileDevices_def)
      with assms
      have "e \<in> set (fst (failed tr ''error while validating logical volumes in existing volume group'' err))"
        by simp
      then show ?thesis using failed_events tr by blast
    qed
  qed
qed

lemma reconcileDevices_devices:
  assumes "av \<noteq> []"
  shows "fst (reconcileDevices h vg vgs av cfg)
           = SetStatus Progressing
               # (if setVolumeGroupProgressingStatus h = Inr True then []
                  else fst (createOrExtend h vg vgs av cfg))"
  using assms
  by (cases "setVolumeGroupProgressingStatus h")
     (auto simp: reconcileDevices_def Let_def split_beta split: sum.splits bool.splits)

lemma progressingFirst_quiet: "\<forall>e \<in> set tr. \<not> isMutation e \<Longrightarrow> progressingFirst tr"
  unfolding progressingFirst_def using set_takeWhileD by fastforce

lemma progressingFirst_Cons: "progressingFirst (SetStatus Progressing # tr)"
  by (simp add: progressingFirst_def)

lemma progressingFirst_append:
  assumes "\<forall>e \<in> set pre. \<not> isMutation e" and "progressingFirst tr"
  shows "progressingFirst (pre @ tr)"
proof -
  have "set (takeWhile (\<lambda>e. e \<noteq> SetStatus Progressing) (pre @ tr))
          \<subseteq> set pre \<union> set (takeWhile (\<lambda>e. e \<noteq> SetStatus Progressing) tr)"
    by (auto simp: takeWhile_append dest: set_takeWhileD)
  then show ?thesis using assms unfolding progressingFirst_def by blast
qed

lemma reconcileDevices_progressingFirst: "progressingFirst (fst (reconcileDevices h vg vgs av cfg))"
proof (cases "av = []")
  case True
  have "\<forall>e \<in> set (fst (reconcileDevices h vg vgs [] cfg)). \<not> isMutation e"
    using reconcileDevices_noDevices [of _ h vg vgs cfg] by fastforce
  then show ?thesis using True progressingFirst_quiet by blast
next
  case False
  then show ?thesis by (simp add: reconcileDevices_devices progressingFirst_Cons)
qed

lemma reconcileDevices_requeue:
  assumes "setVolumeGroupProgressingStatus h = Inr True"
    and "e \<in> set (fst (reconcileDevices h vg vgs av cfg))"
  shows "\<not> isMutation e"
proof (cases "av = []")
  case True
  then show ?thesis using assms(2) reconcileDevices_noDevices [of e h vg vgs cfg] by fastforce
next
  case False
  then show ?thesis using assms by (simp add: reconcileDevices_devices)
qed

lemma reconcileDevices_save:
  assumes "LvmdSave c \<in> set (fst (reconcileDevices h vg vgs av cfg))"
  shows "c = ensureClass vg cfg"
proof (cases "av = []")
  case True
  then show ?thesis using assms reconcileDevices_noDevices [of "LvmdSave c" h vg vgs cfg] by simp
next
  case False
  with assms have "LvmdSave c \<in> set (fst (createOrExtend h vg vgs av cfg))"
    by (auto simp: reconcileDevices_devices split: if_splits)
  from createOrExtend_events [OF this] show ?thesis
    by (simp add: mutationPhaseEvent_def)
qed

lemma selectAndReconcile_result:
  "\<exists>pre. (\<forall>e \<in> set pre. preludeEvent e)
      \<and> ((fst (selectAndReconcile h vg bds cfg) = pre \<and> fst (snd (selectAndReconcile h vg bds cfg)) = NoRequeue)
         \<or> (\<exists>vgs avail. fst (selectAndReconcile h vg bds cfg) = pre @ fst (reconcileDevices h vg vgs avail cfg)
               \<and> snd (selectAndReconcile h vg bds cfg) = snd (reconcileDevices h vg vgs avail cfg)))"
proof (cases "getNewDevicesToBeAdded h bds")
  case (Inl err)
  then have "fst (selectAndReconcile h vg bds cfg) = [GetNewDevices]
      \<and> fst (snd (selectAndReconcile h vg bds cfg)) = NoRequeue"
    by (simp add: selectAndReconcile_def)
  moreover have "\<forall>e \<in> set [GetNewDevices]. preludeEvent e" by simp
  ultimately show ?thesis by blast
next
  case (Inr newDevices)
  show ?thesis
  proof (cases "listVGs h")
    case (Inl err)
    with Inr have "fst (selectAndReconcile h vg bds cfg) = [GetNewDevices, ListVGs]
        \<and> fst (snd (selectAndReconcile h vg bds cfg)) = NoRequeue"
      by (simp add: selectAndReconcile_def)
    moreover have "\<forall>e \<in> set [GetNewDevices, ListVGs]. preludeEvent e" by simp
    ultimately show ?thesis by blast
  next
    case vgs: (Inr vgs)
    with Inr have "fst (selectAndReconcile h vg bds cfg)
        = [GetNewDevices, ListVGs] @ fst (reconcileDevices h vg vgs (filterDevices h newDevices) cfg)
      \<and> snd (selectAndReconcile h vg bds cfg)
        = snd (reconcileDevices h vg vgs (filterDevices h newDevices) cfg)"
      by (simp add: selectAndReconcile_def split_beta)
    moreover have "\<forall>e \<in> set [GetNewDevices, ListVGs]. preludeEvent e" by simp
    ultimately show ?thesis by blast
  qed
qed

lemma result_prepend:
  assumes s: "\<exists>pre. (\<forall>e \<in> set pre. preludeEvent e)
      \<and> ((fst q = pre \<and> fst (snd q) = NoRequeue)
         \<or> (\<exists>vgs avail. fst q = pre @ fst (reconcileDevices h vg vgs avail cfg)
               \<and> snd q = snd (reconcileDevices h vg vgs avail cfg)))"
    and p: "\<forall>e \<in> set p. preludeEvent e"
    and r: "fst r = p @ fst q" "snd r = snd q"
  shows "\<exists>pre. (\<forall>e \<in> set pre. preludeEvent e)
      \<and> ((fst r = pre \<and> fst (snd r) = NoRequeue)
         \<or> (\<exists>vgs avail. fst r = pre @ fst (reconcileDevices h vg vgs avail cfg)
               \<and> snd r = snd (reconcileDevices h vg vgs avail cfg)))"
proof -
  from s obtain pre where pre: "\<forall>e \<in> set pre. preludeEvent e"
    and d: "(fst q = pre \<and> fst (snd q) = NoRequeue)
         \<or> (\<exists>vgs avail. fst q = pre @ fst (reconcileDevices h vg vgs avail cfg)
               \<and> snd q = snd (reconcileDevices h vg vgs avail cfg))" by blast
  have pp: "\<forall>e \<in> set (p @ pre). preludeEvent e" using p pre by auto
  from d have "(fst r = p @ pre \<and> fst (snd r) = NoRequeue)
         \<or> (\<exists>vgs avail. fst r = (p @ pre) @ fst (reconcileDevices h vg vgs avail cfg)
               \<and> snd r = snd (reconcileDevices h vg vgs avail cfg))"
    using r by auto
  with pp show ?thesis by blast
qed

lemma result_prelude:
  assumes "\<forall>e \<in> set (fst r). preludeEvent e" and "fst (snd r) = NoRequeue"
  shows "\<exists>pre. (\<forall>e \<in> set pre. preludeEvent e)
      \<and> ((fst r = pre \<and> fst (snd r) = NoRequeue)
         \<or> (\<exists>vgs avail. fst r = pre @ fst (reconcileDevices h vg vgs avail cfg)
               \<and> snd r = snd (reconcileDevices h vg vgs avail cfg)))"
  using assms by blast

lemma reconcile_result:
  assumes nd: "\<not> deletionRequested vg"
  shows "\<exists>pre. (\<forall>e \<in> set pre. preludeEvent e)
      \<and> ((fst (reconcile h vg) = pre \<and> fst (snd (reconcile h vg)) = NoRequeue)
         \<or> (\<exists>vgs avail. fst (reconcile h vg) = pre @ fst (reconcileDevices h vg vgs avail (startConfig h))
               \<and> snd (reconcile h vg) = snd (reconcileDevices h vg vgs avail (startConfig h))))"
proof (cases "finalizerPresent vg")
  case False
  with nd have "reconcile h vg = ([UpdateFinalizerAdded], NoRequeue, clientUpdate h)"
    by (simp add: reconcile_def Let_def)
  then show ?thesis by (intro result_prelude) simp_all
next
  case fin: True
  show ?thesis
  proof (cases "lvmdLoad h")
    case (Inl err)
    with nd fin have "reconcile h vg = ([LvmdLoad, SetStatus Failed], NoRequeue,
        Some (Wrap ''failed to read the lvmd config file'' err))" by (simp add: reconcile_def Let_def)
    then show ?thesis by (intro result_prelude) simp_all
  next
    case (Inr loaded)
    have cfg: "(case loaded of None \<Rightarrow> \<lparr>SocketName = defaultLVMdSocket h, DeviceClasses = []\<rparr>
                | Some config \<Rightarrow> config) = startConfig h"
      using Inr by (simp add: startConfig_def split: option.splits)
    show ?thesis
    proof (cases "listBlockDevices h")
      case (Inl err)
      with nd fin Inr have "reconcile h vg = ([LvmdLoad, ListBlockDevices], NoRequeue,
          Some (Wrap ''failed to list block devices'' err))"
        by (simp add: reconcile_def Let_def)
      then show ?thesis by (intro result_prelude) simp_all
    next
      case bds: (Inr bds)
      obtain trw rw where w: "wipeDevicesIfNecessary (wipefsWipe h) (dmsetupRemove h) (alreadyInStatus h) vg bds
                                = (trw, rw)"
        by (cases "wipeDevicesIfNecessary (wipefsWipe h) (dmsetupRemove h) (alreadyInStatus h) vg bds")
      have trw: "\<forall>e \<in> set trw. preludeEvent e"
        using wipeDevicesIfNecessary_prelude [of _ "wipefsWipe h" "dmsetupRemove h" "alreadyInStatus h" vg bds] w
        by simp
      show ?thesis
      proof (cases rw)
        case (Inl err)
        with nd fin Inr bds w have "reconcile h vg = ([LvmdLoad, ListBlockDevices] @ trw, NoRequeue,
            Some (Wrap ''failed to wipe devices'' err))"
          by (simp add: reconcile_def Let_def)
        then show ?thesis using trw by (intro result_prelude) simp_all
      next
        case wiped: (Inr wiped)
        show ?thesis
        proof (cases wiped)
          case False
          with nd fin Inr bds w wiped cfg
          have eq: "fst (reconcile h vg) = ([LvmdLoad, ListBlockDevices] @ trw)
                  @ fst (selectAndReconcile h vg bds (startConfig h))"
            "snd (reconcile h vg) = snd (selectAndReconcile h vg bds (startConfig h))"
            by (simp_all add: reconcile_def split_beta Let_def)
          have p: "\<forall>e \<in> set ([LvmdLoad, ListBlockDevices] @ trw). preludeEvent e"
            using trw by simp
          show ?thesis
            by (rule result_prepend [OF selectAndReconcile_result p eq])
        next
          case True
          show ?thesis
          proof (cases "listBlockDevicesAfterWipe h")
            case (Inl err)
            with nd fin Inr bds w wiped True
            have "reconcile h vg = ([LvmdLoad, ListBlockDevices] @ trw @ [ListBlockDevices], NoRequeue,
                Some (Wrap ''failed to list block devices'' err))"
              by (simp add: reconcile_def Let_def)
            then show ?thesis using trw by (intro result_prelude) simp_all
          next
            case bds': (Inr bds')
            with nd fin Inr bds w wiped True cfg
            have eq: "fst (reconcile h vg) = ([LvmdLoad, ListBlockDevices] @ trw @ [ListBlockDevices])
                    @ fst (selectAndReconcile h vg bds' (startConfig h))"
              "snd (reconcile h vg) = snd (selectAndReconcile h vg bds' (startConfig h))"
              by (simp_all add: reconcile_def split_beta Let_def)
            have p: "\<forall>e \<in> set ([LvmdLoad, ListBlockDevices] @ trw @ [ListBlockDevices]). preludeEvent e"
              using trw by simp
            show ?thesis
              by (rule result_prepend [OF selectAndReconcile_result p eq])
          qed
        qed
      qed
    qed
  qed
qed

lemma failed_requeue: "fst (snd (failed tr msg err)) = NoRequeue"
  by (simp add: failed_def)

lemma setReady_requeue: "fst (snd (setReady h)) \<noteq> RequeueNow"
  by (simp add: setReady_def split: sum.splits)

lemma syncRegistry_requeue: "fst (snd (syncRegistry h vg cfg)) \<noteq> RequeueNow"
  using setReady_requeue [of h]
  by (auto simp: syncRegistry_def Let_def split_beta split: option.splits)

lemma createOrExtend_requeue: "fst (snd (createOrExtend h vg vgs av cfg)) \<noteq> RequeueNow"
proof -
  obtain tr1 r1 where a: "addDevicesToVG (executeCommand h) vgs (lvgName vg) av = (tr1, r1)"
    by (cases "addDevicesToVG (executeCommand h) vgs (lvgName vg) av")
  obtain tr2 r2 where b: "addThinPoolToVG h (lvgName vg) (specThinPoolConfig vg) = (tr2, r2)"
    by (cases "addThinPoolToVG h (lvgName vg) (specThinPoolConfig vg)")
  obtain tr3 r3 where c: "validateLVs h vg = (tr3, r3)"
    by (cases "validateLVs h vg")
  show ?thesis
    unfolding createOrExtend_def a b c
    using syncRegistry_requeue [of h vg cfg]
    by (cases r1; cases r2; cases r3) (simp_all add: failed_requeue split_beta)
qed

lemma reconcileDevices_changed:
  "av \<noteq> [] \<Longrightarrow> setVolumeGroupProgressingStatus h = Inr True
     \<Longrightarrow> reconcileDevices h vg vgs av cfg = ([SetStatus Progressing], RequeueNow, None)"
  by (simp add: reconcileDevices_def Let_def)

lemma reconcileDevices_written:
  "(SetStatus Progressing \<in> set (fst (reconcileDevices h vg vgs av cfg))) = (av \<noteq> [])"
proof (cases "av = []")
  case True
  then show ?thesis using reconcileDevices_noDevices [of "SetStatus Progressing" h vg vgs cfg] by auto
next
  case False
  then show ?thesis by (simp add: reconcileDevices_devices)
qed

lemma reconcileDevices_requeueNow:
  assumes "fst (snd (reconcileDevices h vg vgs av cfg)) = RequeueNow"
  shows "av \<noteq> [] \<and> setVolumeGroupProgressingStatus h = Inr True"
proof -
  obtain tr r where v: "validateLVs h vg = (tr, r)" by (cases "validateLVs h vg")
  have nd: "av \<noteq> []"
  proof
    assume "av = []"
    with assms v show False
      using setReady_requeue [of h]
      by (cases r) (auto simp: reconcileDevices_def Let_def failed_requeue split_beta split: if_splits)
  qed
  have "setVolumeGroupProgressingStatus h = Inr True"
  proof (rule ccontr)
    assume n: "setVolumeGroupProgressingStatus h \<noteq> Inr True"
    have "snd (reconcileDevices h vg vgs av cfg) = snd (createOrExtend h vg vgs av cfg)"
      using nd n
      by (cases "setVolumeGroupProgressingStatus h")
         (auto simp: reconcileDevices_def Let_def split_beta split: bool.splits)
    with assms createOrExtend_requeue [of h vg vgs av cfg] show False by simp
  qed
  with nd show ?thesis by simp
qed

lemma reconcile_requeue:
  assumes nd: "\<not> deletionRequested vg"
  shows "(setVolumeGroupProgressingStatus h = Inr True
            \<and> SetStatus Progressing \<in> set (fst (reconcile h vg)) \<longrightarrow>
              snd (reconcile h vg) = (RequeueNow, None)
              \<and> last (fst (reconcile h vg)) = SetStatus Progressing)
       \<and> (fst (snd (reconcile h vg)) = RequeueNow \<longrightarrow>
              setVolumeGroupProgressingStatus h = Inr True
              \<and> SetStatus Progressing \<in> set (fst (reconcile h vg)))"
proof -
  from reconcile_result [OF nd, of h] obtain pre where
    pre: "\<forall>e \<in> set pre. preludeEvent e"
    and d: "(fst (reconcile h vg) = pre \<and> fst (snd (reconcile h vg)) = NoRequeue)
         \<or> (\<exists>vgs avail. fst (reconcile h vg) = pre @ fst (reconcileDevices h vg vgs avail (startConfig h))
               \<and> snd (reconcile h vg) = snd (reconcileDevices h vg vgs avail (startConfig h)))"
    by blast
  have q: "SetStatus Progressing \<notin> set pre" using pre preludeEvent_quiet by blast
  from d show ?thesis
  proof
    assume "fst (reconcile h vg) = pre \<and> fst (snd (reconcile h vg)) = NoRequeue"
    then show ?thesis using q by simp
  next
    assume "\<exists>vgs avail. fst (reconcile h vg) = pre @ fst (reconcileDevices h vg vgs avail (startConfig h))
               \<and> snd (reconcile h vg) = snd (reconcileDevices h vg vgs avail (startConfig h))"
    then obtain vgs av where
      f: "fst (reconcile h vg) = pre @ fst (reconcileDevices h vg vgs av (startConfig h))"
      and s: "snd (reconcile h vg) = snd (reconcileDevices h vg vgs av (startConfig h))" by blast
    have 1: "snd (reconcile h vg) = (RequeueNow, None)
              \<and> last (fst (reconcile h vg)) = SetStatus Progressing"
      if c: "setVolumeGroupProgressingStatus h = Inr True"
        and w: "SetStatus Progressing \<in> set (fst (reconcile h vg))"
    proof -
      from w q f have "SetStatus Progressing \<in> set (fst (reconcileDevices h vg vgs av (startConfig h)))"
        by simp
      then have "av \<noteq> []" by (simp add: reconcileDevices_written)
      from reconcileDevices_changed [OF this c, of vg vgs "startConfig h"] f s
      show ?thesis by simp
    qed
    have 2: "setVolumeGroupProgressingStatus h = Inr True
              \<and> SetStatus Progressing \<in> set (fst (reconcile h vg))"
      if r: "fst (snd (reconcile h vg)) = RequeueNow"
    proof -
      from r s have "fst (snd (reconcileDevices h vg vgs av (startConfig h))) = RequeueNow" by simp
      from reconcileDevices_requeueNow [OF this]
      have a: "av \<noteq> []" and c: "setVolumeGroupProgressingStatus h = Inr True" by simp_all
      from a have "SetStatus Progressing \<in> set (fst (reconcileDevices h vg vgs av (startConfig h)))"
        by (simp add: reconcileDevices_written)
      with f c show ?thesis by simp
    qed
    from 1 2 show ?thesis by blast
  qed
qed

text \<open>C2, as amended: in a pass that is not a deletion, no creation or extension of the
  volume group or of the thin pool precedes the first write of the progressing status; with
  available devices, and only then, that write is made, and it is the first thing done; when
  it changed the status the pass ends there with an immediate requeue and without error,
  having issued no such mutation at all, and no pass asks for an immediate requeue otherwise;
  when the write did not change the status, or failed, the create or extend command follows
  it directly.\<close>

theorem progressing_write_attempted_first:
  assumes nd: "\<not> deletionRequested vg"
  shows "progressingFirst (fst (reconcile h vg))
     \<and> (setVolumeGroupProgressingStatus h = Inr True \<longrightarrow>
           (\<forall>e \<in> set (fst (reconcile h vg)). \<not> isMutation e))
     \<and> (\<forall>vgs av cfg. av \<noteq> [] \<longrightarrow>
           (\<exists>rest. fst (reconcileDevices h vg vgs av cfg) = SetStatus Progressing # rest))
     \<and> (\<forall>vgs av cfg. av \<noteq> [] \<and> setVolumeGroupProgressingStatus h \<noteq> Inr True \<longrightarrow>
           (\<exists>cmd args rest. fst (reconcileDevices h vg vgs av cfg)
                               = SetStatus Progressing # ExecuteCommand cmd args # rest))
     \<and> (\<forall>vgs av cfg. av \<noteq> [] \<and> setVolumeGroupProgressingStatus h = Inr True \<longrightarrow>
           reconcileDevices h vg vgs av cfg = ([SetStatus Progressing], RequeueNow, None))
     \<and> (\<forall>vgs av cfg.
           (SetStatus Progressing \<in> set (fst (reconcileDevices h vg vgs av cfg))) = (av \<noteq> []))
     \<and> (setVolumeGroupProgressingStatus h = Inr True
          \<and> SetStatus Progressing \<in> set (fst (reconcile h vg)) \<longrightarrow>
            snd (reconcile h vg) = (RequeueNow, None)
            \<and> last (fst (reconcile h vg)) = SetStatus Progressing)
     \<and> (fst (snd (reconcile h vg)) = RequeueNow \<longrightarrow>
            setVolumeGroupProgressingStatus h = Inr True
            \<and> SetStatus Progressing \<in> set (fst (reconcile h vg)))"
proof -
  from reconcile_shape [OF nd, of h] obtain pre body where
    eq: "fst (reconcile h vg) = pre @ body" and pre: "\<forall>e \<in> set pre. preludeEvent e"
    and body: "body = [] \<or> (\<exists>vgs avail. body = fst (reconcileDevices h vg vgs avail (startConfig h)))"
    by blast
  have q: "\<forall>e \<in> set pre. \<not> isMutation e" using pre preludeEvent_quiet by blast
  have pb: "progressingFirst body"
    using body reconcileDevices_progressingFirst by (auto simp: progressingFirst_def)
  have 1: "progressingFirst (fst (reconcile h vg))"
    unfolding eq by (rule progressingFirst_append [OF q pb])
  have 2: "\<forall>e \<in> set (fst (reconcile h vg)). \<not> isMutation e"
    if "setVolumeGroupProgressingStatus h = Inr True"
  proof
    fix e assume "e \<in> set (fst (reconcile h vg))"
    then consider "e \<in> set pre" | "e \<in> set body" unfolding eq by auto
    then show "\<not> isMutation e"
    proof cases
      case 1
      then show ?thesis using q by blast
    next
      case 2
      then show ?thesis using body reconcileDevices_requeue [OF that] by auto
    qed
  qed
  have 3: "\<exists>rest. fst (reconcileDevices h vg vgs av cfg) = SetStatus Progressing # rest"
    if "av \<noteq> []" for vgs av cfg
    using that by (simp add: reconcileDevices_devices)
  have 4: "\<exists>cmd args rest. fst (reconcileDevices h vg vgs av cfg)
                               = SetStatus Progressing # ExecuteCommand cmd args # rest"
    if "av \<noteq> [] \<and> setVolumeGroupProgressingStatus h \<noteq> Inr True" for vgs av cfg
    using that createOrExtend_starts [of av h vg vgs cfg] by (auto simp: reconcileDevices_devices)
  have 5: "reconcileDevices h vg vgs av cfg = ([SetStatus Progressing], RequeueNow, None)"
    if "av \<noteq> [] \<and> setVolumeGroupProgressingStatus h = Inr True" for vgs av cfg
    using that reconcileDevices_changed [of av h vg vgs cfg] by simp
  note 6 = reconcileDevices_written [of h vg]
  note 7 = reconcile_requeue [OF nd, of h]
  show ?thesis
    apply (intro conjI)
    subgoal by (rule 1)
    subgoal using 2 by blast
    subgoal using 3 by blast
    subgoal using 4 by blast
    subgoal using 5 by blast
    subgoal using 6 by blast
    subgoal using 7 by (elim conjE)
    subgoal using 7 by (elim conjE)
    done
qed

theorem progressing_write_attempted_first_witness:
  "\<not> deletionRequested vg1Spec
   \<and> progressingFirst (fst (reconcile oneDiskHost vg1Spec))
   \<and> fst (reconcileDevices oneDiskHost vg1Spec [] [BlockDevice ''sdb'' ''/dev/sdb'' [] []]
             (startConfig oneDiskHost))
       = [SetStatus Progressing, ExecuteCommand ''/usr/sbin/vgcreate'' [''vg1'', ''/dev/sdb''],
          ListLVs ''vg1'', CreateLV ''thin-pool-1'' ''vg1'' 90, ListLVs ''vg1'', SetStatus Failed]
   \<and> reconcile (oneDiskHost\<lparr>setVolumeGroupProgressingStatus := Inr True\<rparr>) vg1Spec
       = ([LvmdLoad, ListBlockDevices, GetNewDevices, ListVGs, SetStatus Progressing], RequeueNow, None)"
proof -
  let ?h = "oneDiskHost\<lparr>setVolumeGroupProgressingStatus := Inr True\<rparr>"
  have nd: "\<not> deletionRequested vg1Spec" by (simp add: vg1Spec_def)
  have run: "fst (reconcileDevices oneDiskHost vg1Spec [] [BlockDevice ''sdb'' ''/dev/sdb'' [] []]
             (startConfig oneDiskHost))
       = [SetStatus Progressing, ExecuteCommand ''/usr/sbin/vgcreate'' [''vg1'', ''/dev/sdb''],
          ListLVs ''vg1'', CreateLV ''thin-pool-1'' ''vg1'' 90, ListLVs ''vg1'', SetStatus Failed]"
    by (simp add: reconcileDevices_def createOrExtend_def addDevicesToVG_def addThinPoolToVG_def
        validateLVs_def failed_def isPanic_def oneDiskHost_def quietHost_def vg1Spec_def vgcreate_def)
  from progressing_write_attempted_first [OF nd, of oneDiskHost]
  have first: "progressingFirst (fst (reconcile oneDiskHost vg1Spec))" by (elim conjE)
  have tr: "fst (reconcile ?h vg1Spec)
              = [LvmdLoad, ListBlockDevices, GetNewDevices, ListVGs, SetStatus Progressing]"
    by (simp add: reconcile_def selectAndReconcile_def wipeDevicesIfNecessary_def
        reconcileDevices_def oneDiskHost_def quietHost_def vg1Spec_def)
  have c: "setVolumeGroupProgressingStatus ?h = Inr True" by simp
  from progressing_write_attempted_first [OF nd, of ?h]
  have "setVolumeGroupProgressingStatus ?h = Inr True
          \<and> SetStatus Progressing \<in> set (fst (reconcile ?h vg1Spec)) \<longrightarrow>
            snd (reconcile ?h vg1Spec) = (RequeueNow, None)
            \<and> last (fst (reconcile ?h vg1Spec)) = SetStatus Progressing"
    by (elim conjE)
  with c tr have "snd (reconcile ?h vg1Spec) = (RequeueNow, None)" by simp
  with tr have "reconcile ?h vg1Spec
       = ([LvmdLoad, ListBlockDevices, GetNewDevices, ListVGs, SetStatus Progressing], RequeueNow, None)"
    by (cases "reconcile ?h vg1Spec") simp
  with nd first run show ?thesis by (intro conjI)
qed

text \<open>C2 as stated fails: when the write of the progressing status fails, the failure is only
  logged, the status is not set, and the volume group is created all the same.\<close>

theorem mutation_after_failed_progressing_write:
  "\<not> deletionRequested vg1Spec
   \<and> \<not> statusSetToProgressing (oneDiskHost\<lparr>setVolumeGroupProgressingStatus := Inl (HostError ''conflict'')\<rparr>)
   \<and> fst (reconcile (oneDiskHost\<lparr>setVolumeGroupProgressingStatus := Inl (HostError ''conflict'')\<rparr>) vg1Spec)
       = [LvmdLoad, ListBlockDevices, GetNewDevices, ListVGs, SetStatus Progressing,
          ExecuteCommand ''/usr/sbin/vgcreate'' [''vg1'', ''/dev/sdb''],
          ListLVs ''vg1'', CreateLV ''thin-pool-1'' ''vg1'' 90, ListLVs ''vg1'', SetStatus Failed]"
  by (simp add: reconcile_def selectAndReconcile_def wipeDevicesIfNecessary_def
        reconcileDevices_def createOrExtend_def addDevicesToVG_def addThinPoolToVG_def
        validateLVs_def failed_def isPanic_def oneDiskHost_def quietHost_def vg1Spec_def vgcreate_def
        statusSetToProgressing_def)

lemma removeDeviceClass_subset: "set (removeDeviceClass n xs) \<subseteq> set xs"
  by (induction xs) auto

lemma removeDeviceClass_distinct:
  "distinct (map dcName xs) \<Longrightarrow> distinct (map dcName (removeDeviceClass n xs))"
proof (induction xs)
  case Nil
  then show ?case by simp
next
  case (Cons x xs)
  then show ?case using removeDeviceClass_subset [of n xs] by auto
qed

lemma removeDeviceClass_length: "length xs \<le> length (removeDeviceClass n xs) + 1"
  by (induction xs) auto

lemma removeDeviceClass_others:
  "filter (\<lambda>d. dcName d \<noteq> n) (removeDeviceClass n xs) = filter (\<lambda>d. dcName d \<noteq> n) xs"
  by (induction xs) auto

lemma removeDeviceClass_absent:
  "\<forall>d \<in> set xs. dcName d \<noteq> n \<Longrightarrow> removeDeviceClass n xs = xs"
  by (induction xs) auto

lemma ensureClass_distinct:
  "distinct (map dcName (DeviceClasses cfg)) \<Longrightarrow> distinct (map dcName (DeviceClasses (ensureClass vg cfg)))"
  by (auto simp: ensureClass_def newDeviceClass_def split: option.splits)

lemma updateRegistry_save:
  "LvmdSave c \<in> set (fst (updateRegistry h c')) \<Longrightarrow> c' = Some c"
  by (auto simp: updateRegistry_def split: option.splits if_splits)

lemma processDelete_save:
  assumes e: "LvmdSave c \<in> set (fst (processDelete h vg))"
  shows "\<exists>loaded. lvmdLoad h = Inr (Some loaded)
           \<and> c = loaded\<lparr>DeviceClasses := removeDeviceClass (lvgName vg) (DeviceClasses loaded)\<rparr>"
proof (cases "lvmdLoad h")
  case (Inl err)
  with e show ?thesis by (simp add: processDelete_def)
next
  case (Inr loaded)
  let ?c = "(case loaded of None \<Rightarrow> None
                       | Some config \<Rightarrow> Some (config\<lparr>DeviceClasses :=
                              removeDeviceClass (lvgName vg) (DeviceClasses config)\<rparr>))"
  note unf = processDelete_unfold [OF Inr, of vg]
  have r: "stepRank (LvmdSave c) = Some 2" by simp
  have nA: "LvmdSave c \<notin> set (fst (teardown h vg))"
    using keepsOrder_rank [OF keepsOrder_teardown _ r, of h vg] by auto
  have nC: "LvmdSave c \<notin> set (fst (removeStatus h))"
    using keepsOrder_rank [OF keepsOrder_removeStatus _ r, of h] by auto
  have nD: "LvmdSave c \<notin> set (fst (removeFinalizer h vg))"
    using keepsOrder_rank [OF keepsOrder_removeFinalizer _ r, of h vg] by auto
  from e have "LvmdSave c \<in> set (fst (andThen (teardown h vg)
          (andThen (updateRegistry h ?c) (andThen (removeStatus h) (removeFinalizer h vg)))))"
    unfolding unf by (simp add: andThen_fst)
  from in_andThen [OF this] nA
  have "LvmdSave c \<in> set (fst (andThen (updateRegistry h ?c)
            (andThen (removeStatus h) (removeFinalizer h vg))))" by auto
  from in_andThen [OF this]
  have "LvmdSave c \<in> set (fst (updateRegistry h ?c))
        \<or> LvmdSave c \<in> set (fst (andThen (removeStatus h) (removeFinalizer h vg)))" by auto
  moreover have "LvmdSave c \<notin> set (fst (andThen (removeStatus h) (removeFinalizer h vg)))"
    using in_andThen [of "LvmdSave c" "removeStatus h" "removeFinalizer h vg"] nC nD by auto
  ultimately have "?c = Some c" using updateRegistry_save by blast
  then show ?thesis using Inr by (auto split: option.splits)
qed

lemma reconcile_save:
  assumes nd: "\<not> deletionRequested vg" and e: "LvmdSave c \<in> set (fst (reconcile h vg))"
  shows "c = ensureClass vg (startConfig h)"
proof -
  from reconcile_shape [OF nd, of h] obtain pre body where
    eq: "fst (reconcile h vg) = pre @ body" and pre: "\<forall>e \<in> set pre. preludeEvent e"
    and body: "body = [] \<or> (\<exists>vgs avail. body = fst (reconcileDevices h vg vgs avail (startConfig h)))"
    by blast
  have "LvmdSave c \<notin> set pre" using pre preludeEvent_quiet by blast
  with e eq have "LvmdSave c \<in> set body" by simp
  with body show ?thesis using reconcileDevices_save by auto
qed

lemma registry_quiet:
  "\<forall>e \<in> set tr. stepRank e \<noteq> Some 2 \<Longrightarrow> foldl (registryStep h) f tr = f"
proof (induction tr arbitrary: f)
  case Nil
  show ?case by simp
next
  case (Cons e tr)
  then have "stepRank e \<noteq> Some 2" by simp
  then have "registryStep h f e = f" by (cases e) simp_all
  with Cons show ?case by simp
qed

lemma registry_saves:
  "\<forall>e \<in> set tr. stepRank e = Some 2 \<longrightarrow> e = LvmdSave c0
     \<Longrightarrow> foldl (registryStep h) f tr = f \<or> foldl (registryStep h) f tr = Some c0"
proof (induction tr arbitrary: f)
  case Nil
  show ?case by simp
next
  case (Cons e tr)
  from Cons.prems have r: "\<forall>e \<in> set tr. stepRank e = Some 2 \<longrightarrow> e = LvmdSave c0" by simp
  from Cons.prems have "stepRank e = Some 2 \<longrightarrow> e = LvmdSave c0" by simp
  then have "registryStep h f e = f \<or> registryStep h f e = Some c0" by (cases e) auto
  then show ?case using Cons.IH [OF r, of f] Cons.IH [OF r, of "Some c0"] by auto
qed

lemma registry_deletes:
  "\<forall>e \<in> set tr. stepRank e = Some 2 \<longrightarrow> e = LvmdDelete
     \<Longrightarrow> foldl (registryStep h) f tr = f \<or> foldl (registryStep h) f tr = None"
proof (induction tr arbitrary: f)
  case Nil
  show ?case by simp
next
  case (Cons e tr)
  from Cons.prems have r: "\<forall>e \<in> set tr. stepRank e = Some 2 \<longrightarrow> e = LvmdDelete" by simp
  from Cons.prems have "stepRank e = Some 2 \<longrightarrow> e = LvmdDelete" by simp
  then have "registryStep h f e = f \<or> registryStep h f e = None" by (cases e) auto
  then show ?case using Cons.IH [OF r, of f] Cons.IH [OF r, of None] by auto
qed

lemma processDelete_registry:
  assumes r: "stepRank e = Some 2" and e: "e \<in> set (fst (processDelete h vg))"
    and l: "lvmdLoad h = Inr loaded"
  shows "e \<in> set (fst (updateRegistry h
            (case loaded of None \<Rightarrow> None
             | Some config \<Rightarrow> Some (config\<lparr>DeviceClasses :=
                    removeDeviceClass (lvgName vg) (DeviceClasses config)\<rparr>))))"
proof -
  let ?c = "(case loaded of None \<Rightarrow> None
                       | Some config \<Rightarrow> Some (config\<lparr>DeviceClasses :=
                              removeDeviceClass (lvgName vg) (DeviceClasses config)\<rparr>))"
  note unf = processDelete_unfold [OF l, of vg]
  have nA: "e \<notin> set (fst (teardown h vg))"
    using keepsOrder_rank [OF keepsOrder_teardown _ r, of h vg] by auto
  have nC: "e \<notin> set (fst (removeStatus h))"
    using keepsOrder_rank [OF keepsOrder_removeStatus _ r, of h] by auto
  have nD: "e \<notin> set (fst (removeFinalizer h vg))"
    using keepsOrder_rank [OF keepsOrder_removeFinalizer _ r, of h vg] by auto
  have nL: "e \<noteq> LvmdLoad" using r by auto
  from e nL have "e \<in> set (fst (andThen (teardown h vg)
          (andThen (updateRegistry h ?c) (andThen (removeStatus h) (removeFinalizer h vg)))))"
    unfolding unf by (simp add: andThen_fst)
  from in_andThen [OF this] nA
  have "e \<in> set (fst (andThen (updateRegistry h ?c)
            (andThen (removeStatus h) (removeFinalizer h vg))))" by auto
  from in_andThen [OF this]
  have "e \<in> set (fst (updateRegistry h ?c))
        \<or> e \<in> set (fst (andThen (removeStatus h) (removeFinalizer h vg)))" by auto
  moreover have "e \<notin> set (fst (andThen (removeStatus h) (removeFinalizer h vg)))"
    using in_andThen [of e "removeStatus h" "removeFinalizer h vg"] nC nD by auto
  ultimately show ?thesis by blast
qed

lemma updateRegistry_events:
  "e \<in> set (fst (updateRegistry h c')) \<Longrightarrow>
     \<exists>c. c' = Some c \<and> (if DeviceClasses c \<noteq> [] then e = LvmdSave c else e = LvmdDelete)"
  by (auto simp: updateRegistry_def split: option.splits if_splits)

lemma removeDeviceClass_subseq: "subseq (removeDeviceClass n xs) xs"
  by (induction xs) auto

lemma removeDeviceClass_Nil:
  "removeDeviceClass n xs = [] \<Longrightarrow> length xs \<le> 1 \<and> (\<forall>d \<in> set xs. dcName d = n)"
  by (induction xs) (auto split: if_splits)

lemma reconcile_noDelete:
  assumes nd: "\<not> deletionRequested vg"
  shows "LvmdDelete \<notin> set (fst (reconcile h vg))"
proof
  assume e: "LvmdDelete \<in> set (fst (reconcile h vg))"
  from reconcile_shape [OF nd, of h] obtain pre body where
    eq: "fst (reconcile h vg) = pre @ body" and pre: "\<forall>e \<in> set pre. preludeEvent e"
    and body: "body = [] \<or> (\<exists>vgs avail. body = fst (reconcileDevices h vg vgs avail (startConfig h)))"
    by blast
  have "LvmdDelete \<notin> set pre" using pre by auto
  with e eq have b: "LvmdDelete \<in> set body" by simp
  with body obtain vgs av where
    i: "LvmdDelete \<in> set (fst (reconcileDevices h vg vgs av (startConfig h)))" by auto
  show False
  proof (cases "av = []")
    case True
    with i reconcileDevices_noDevices [of LvmdDelete h vg vgs "startConfig h"] show False by simp
  next
    case False
    with i have "LvmdDelete \<in> set (fst (createOrExtend h vg vgs av (startConfig h)))"
      by (auto simp: reconcileDevices_devices split: if_splits)
    from createOrExtend_events [OF this] show False
      by (simp add: mutationPhaseEvent_def)
  qed
qed

lemma registryAfter_normal:
  assumes nd: "\<not> deletionRequested vg"
  shows "registryAfter h vg file = file
       \<or> registryAfter h vg file = Some (ensureClass vg (startConfig h))"
  unfolding registryAfter_def
proof (rule registry_saves, rule ballI, rule impI)
  fix e assume e: "e \<in> set (fst (reconcile h vg))" and r: "stepRank e = Some 2"
  from r have "(\<exists>c. e = LvmdSave c) \<or> e = LvmdDelete" by (cases e) simp_all
  with e reconcile_noDelete [OF nd, of h] obtain c where c: "e = LvmdSave c" by auto
  with e reconcile_save [OF nd, of c h] show "e = LvmdSave (ensureClass vg (startConfig h))" by simp
qed

lemma registryAfter_deletion:
  assumes d: "deletionRequested vg" and l: "lvmdLoad h = Inr file"
  shows "classesOf (registryAfter h vg file) = classesOf file
       \<or> classesOf (registryAfter h vg file) = removeDeviceClass (lvgName vg) (classesOf file)"
proof -
  let ?c = "(case file of None \<Rightarrow> None
                       | Some config \<Rightarrow> Some (config\<lparr>DeviceClasses :=
                              removeDeviceClass (lvgName vg) (DeviceClasses config)\<rparr>))"
  have tr: "fst (reconcile h vg) = fst (processDelete h vg)"
    using d by (simp add: reconcile_def split_beta)
  have ev: "\<exists>c. ?c = Some c \<and> (if DeviceClasses c \<noteq> [] then e = LvmdSave c else e = LvmdDelete)"
    if "e \<in> set (fst (processDelete h vg))" "stepRank e = Some 2" for e
    using updateRegistry_events [OF processDelete_registry [OF that(2) that(1) l]] .
  show ?thesis
  proof (cases "file")
    case None
    have "\<forall>e \<in> set (fst (processDelete h vg)). stepRank e \<noteq> Some 2"
      using ev None by auto
    from registry_quiet [OF this] show ?thesis
      by (simp add: registryAfter_def tr)
  next
    case (Some config)
    let ?c0 = "config\<lparr>DeviceClasses := removeDeviceClass (lvgName vg) (DeviceClasses config)\<rparr>"
    show ?thesis
    proof (cases "DeviceClasses ?c0 = []")
      case True
      have "\<forall>e \<in> set (fst (processDelete h vg)). stepRank e = Some 2 \<longrightarrow> e = LvmdDelete"
        using ev Some True by auto
      from registry_deletes [OF this, of h "file"]
      show ?thesis using True Some by (auto simp: registryAfter_def tr classesOf_def)
    next
      case False
      have "\<forall>e \<in> set (fst (processDelete h vg)). stepRank e = Some 2 \<longrightarrow> e = LvmdSave ?c0"
        using ev Some False by auto
      from registry_saves [OF this, of h "file"]
      show ?thesis using Some by (auto simp: registryAfter_def tr classesOf_def)
    qed
  qed
qed

lemma reconcile_delete_event:
  assumes e: "LvmdDelete \<in> set (fst (reconcile h vg))" and l: "lvmdLoad h = Inr file"
  shows "deletionRequested vg \<and> length (classesOf file) \<le> 1
       \<and> (\<forall>d \<in> set (classesOf file). dcName d = lvgName vg)"
proof -
  have d: "deletionRequested vg" using e reconcile_noDelete [of vg h] by blast
  then have "LvmdDelete \<in> set (fst (processDelete h vg))"
    using e by (simp add: reconcile_def split_beta)
  from updateRegistry_events [OF processDelete_registry [OF _ this l]]
  obtain c where c: "(case file of None \<Rightarrow> None
                       | Some config \<Rightarrow> Some (config\<lparr>DeviceClasses :=
                              removeDeviceClass (lvgName vg) (DeviceClasses config)\<rparr>)) = Some c"
    and n: "DeviceClasses c = []"
    by (auto split: if_splits)
  from c n have "removeDeviceClass (lvgName vg) (classesOf file) = []"
    by (auto simp: classesOf_def split: option.splits)
  from removeDeviceClass_Nil [OF this] d show ?thesis by simp
qed

lemma registryAfter_unread:
  assumes "lvmdLoad h = Inl err"
  shows "registryAfter h vg file = file"
proof -
  have "fst (reconcile h vg) = [UpdateFinalizerAdded] \<or> fst (reconcile h vg) = [LvmdLoad]
        \<or> fst (reconcile h vg) = [LvmdLoad, SetStatus Failed]"
    using assms by (simp add: reconcile_def processDelete_def)
  then show ?thesis by (auto simp: registryAfter_def)
qed

lemma startConfig_classes: "lvmdLoad h = Inr file \<Longrightarrow> DeviceClasses (startConfig h) = classesOf file"
  by (simp add: startConfig_def classesOf_def split: option.splits)

lemma saved_classes:
  assumes saved: "LvmdSave saved \<in> set (fst (reconcile h vg))"
  shows "(\<not> deletionRequested vg \<longrightarrow>
            DeviceClasses saved
              = DeviceClasses (startConfig h)
                  @ (if \<exists>deviceClass \<in> set (DeviceClasses (startConfig h)).
                          dcName deviceClass = lvgName vg
                     then [] else [newDeviceClass vg]))
     \<and> (deletionRequested vg \<longrightarrow>
            DeviceClasses saved = removeDeviceClass (lvgName vg) (DeviceClasses (startConfig h))
            \<and> length (DeviceClasses (startConfig h)) \<le> length (DeviceClasses saved) + 1
            \<and> filter (\<lambda>d. dcName d \<noteq> lvgName vg) (DeviceClasses saved)
                = filter (\<lambda>d. dcName d \<noteq> lvgName vg) (DeviceClasses (startConfig h)))
     \<and> (distinct (map dcName (DeviceClasses (startConfig h))) \<longrightarrow>
            distinct (map dcName (DeviceClasses saved)))"
proof (cases "deletionRequested vg")
  case True
  with saved have "LvmdSave saved \<in> set (fst (processDelete h vg))"
    by (simp add: reconcile_def split_beta)
  from processDelete_save [OF this] obtain loaded where
    l: "lvmdLoad h = Inr (Some loaded)"
    and s: "saved = loaded\<lparr>DeviceClasses := removeDeviceClass (lvgName vg) (DeviceClasses loaded)\<rparr>"
    by blast
  have st: "startConfig h = loaded" using l by (simp add: startConfig_def)
  have dc: "DeviceClasses saved = removeDeviceClass (lvgName vg) (DeviceClasses (startConfig h))"
    using s st by simp
  show ?thesis
    using True dc removeDeviceClass_length [of "DeviceClasses (startConfig h)" "lvgName vg"]
      removeDeviceClass_others [of "lvgName vg" "DeviceClasses (startConfig h)"]
      removeDeviceClass_distinct [of "DeviceClasses (startConfig h)" "lvgName vg"]
    by simp
next
  case False
  from reconcile_save [OF False saved] have s: "saved = ensureClass vg (startConfig h)" .
  have "DeviceClasses saved
              = DeviceClasses (startConfig h)
                  @ (if \<exists>deviceClass \<in> set (DeviceClasses (startConfig h)).
                          dcName deviceClass = lvgName vg
                     then [] else [newDeviceClass vg])"
    unfolding s by (simp add: ensureClass_def)
  then show ?thesis using False s ensureClass_distinct [of "startConfig h" vg] by simp
qed

lemma healthy_pass:
  "reconcile healthyHost vg1Spec
     = ([LvmdLoad, ListBlockDevices, GetNewDevices, ListVGs, SetStatus Progressing,
         ExecuteCommand ''/usr/sbin/vgcreate'' [''vg1'', ''/dev/sdb''],
         ListLVs ''vg1'', CreateLV ''thin-pool-1'' ''vg1'' 90, ListLVs ''vg1'',
         LvmdSave \<lparr>SocketName = ''/run/topolvm/lvmd.sock'', DeviceClasses = [vg1Class]\<rparr>,
         SetStatus Ready],
        RequeueAfterInterval, None)"
  by (simp add: reconcile_def selectAndReconcile_def wipeDevicesIfNecessary_def
        reconcileDevices_def createOrExtend_def addDevicesToVG_def addThinPoolToVG_def
        validateLVs_def failed_def isPanic_def syncRegistry_def setReady_def newDeviceClass_def
        metadataWarningPercentage_def fgt_def isNaN_def
        healthyHost_def oneDiskHost_def quietHost_def vg1Spec_def vg1Class_def vgcreate_def)

text \<open>C10: a config saved by a normal pass is the loaded one (or the fresh one when no file
  was there) with the device class of the volume group appended only if no class of that
  name was there; a config saved by a deletion pass is the loaded one without the first class
  of that name; pairwise distinct class names stay pairwise distinct in every saved config.
  For the config file itself: a pass that cannot read the file leaves it alone; after a
  normal pass the file holds the classes it held, with the class of the volume group
  appended at most once and only if no class of that name was there; after a deletion pass
  it holds the classes it held but for at most one, the classes of other names all being
  kept in their order; the file is deleted only by a deletion pass, and only when it held no
  class but at most one of that name; so pairwise distinct class names stay pairwise
  distinct after any pass.\<close>

theorem device_classes_stay_distinct:
  "(\<forall>saved. LvmdSave saved \<in> set (fst (reconcile h vg)) \<longrightarrow>
       (\<not> deletionRequested vg \<longrightarrow>
            DeviceClasses saved
              = DeviceClasses (startConfig h)
                  @ (if \<exists>deviceClass \<in> set (DeviceClasses (startConfig h)).
                          dcName deviceClass = lvgName vg
                     then [] else [newDeviceClass vg]))
     \<and> (deletionRequested vg \<longrightarrow>
            DeviceClasses saved = removeDeviceClass (lvgName vg) (DeviceClasses (startConfig h))
            \<and> length (DeviceClasses (startConfig h)) \<le> length (DeviceClasses saved) + 1
            \<and> filter (\<lambda>d. dcName d \<noteq> lvgName vg) (DeviceClasses saved)
                = filter (\<lambda>d. dcName d \<noteq> lvgName vg) (DeviceClasses (startConfig h)))
     \<and> (distinct (map dcName (DeviceClasses (startConfig h))) \<longrightarrow>
            distinct (map dcName (DeviceClasses saved))))
   \<and> (\<forall>err. lvmdLoad h = Inl err \<longrightarrow> registryAfter h vg file = file)
   \<and> (lvmdLoad h = Inr file \<longrightarrow>
        (\<not> deletionRequested vg \<longrightarrow>
            classesOf (registryAfter h vg file) = classesOf file
            \<or> (classesOf (registryAfter h vg file) = classesOf file @ [newDeviceClass vg]
               \<and> (\<forall>d \<in> set (classesOf file). dcName d \<noteq> lvgName vg)))
      \<and> (deletionRequested vg \<longrightarrow>
            subseq (classesOf (registryAfter h vg file)) (classesOf file)
            \<and> length (classesOf file) \<le> length (classesOf (registryAfter h vg file)) + 1
            \<and> filter (\<lambda>d. dcName d \<noteq> lvgName vg) (classesOf (registryAfter h vg file))
                = filter (\<lambda>d. dcName d \<noteq> lvgName vg) (classesOf file))
      \<and> (LvmdDelete \<in> set (fst (reconcile h vg)) \<longrightarrow>
            deletionRequested vg \<and> length (classesOf file) \<le> 1
            \<and> (\<forall>d \<in> set (classesOf file). dcName d = lvgName vg))
      \<and> (distinct (map dcName (classesOf file)) \<longrightarrow>
            distinct (map dcName (classesOf (registryAfter h vg file)))))"
proof -
  let ?after = "classesOf (registryAfter h vg file)"
  let ?n = "lvgName vg"
  have a: "\<not> deletionRequested vg \<longrightarrow>
            ?after = classesOf file
            \<or> (?after = classesOf file @ [newDeviceClass vg]
               \<and> (\<forall>d \<in> set (classesOf file). dcName d \<noteq> ?n))"
    if l: "lvmdLoad h = Inr file"
  proof
    assume nd: "\<not> deletionRequested vg"
    from registryAfter_normal [OF nd, of h "file"]
    show "?after = classesOf file
            \<or> (?after = classesOf file @ [newDeviceClass vg]
               \<and> (\<forall>d \<in> set (classesOf file). dcName d \<noteq> ?n))"
    proof
      assume "registryAfter h vg file = file"
      then show ?thesis by simp
    next
      assume s: "registryAfter h vg file = Some (ensureClass vg (startConfig h))"
      have "?after = classesOf file @ (if \<exists>d \<in> set (classesOf file). dcName d = ?n then [] else [newDeviceClass vg])"
        unfolding s using startConfig_classes [OF l]
        by (simp add: classesOf_def ensureClass_def)
      then show ?thesis by (auto split: if_splits)
    qed
  qed
  have b: "deletionRequested vg \<longrightarrow>
            subseq ?after (classesOf file)
            \<and> length (classesOf file) \<le> length ?after + 1
            \<and> filter (\<lambda>d. dcName d \<noteq> ?n) ?after = filter (\<lambda>d. dcName d \<noteq> ?n) (classesOf file)"
    if l: "lvmdLoad h = Inr file"
  proof
    assume d: "deletionRequested vg"
    from registryAfter_deletion [OF d l]
    show "subseq ?after (classesOf file)
            \<and> length (classesOf file) \<le> length ?after + 1
            \<and> filter (\<lambda>d. dcName d \<noteq> ?n) ?after = filter (\<lambda>d. dcName d \<noteq> ?n) (classesOf file)"
    proof
      assume "?after = classesOf file"
      then show ?thesis by simp
    next
      assume "?after = removeDeviceClass ?n (classesOf file)"
      then show ?thesis
        using removeDeviceClass_subseq [of ?n "classesOf file"]
          removeDeviceClass_length [of "classesOf file" ?n]
          removeDeviceClass_others [of ?n "classesOf file"]
        by simp
    qed
  qed
  have c: "LvmdDelete \<in> set (fst (reconcile h vg)) \<longrightarrow>
            deletionRequested vg \<and> length (classesOf file) \<le> 1
            \<and> (\<forall>d \<in> set (classesOf file). dcName d = ?n)"
    if l: "lvmdLoad h = Inr file"
    using reconcile_delete_event [OF _ l, of vg] by blast
  have d: "distinct (map dcName (classesOf file)) \<longrightarrow> distinct (map dcName ?after)"
    if l: "lvmdLoad h = Inr file"
  proof (cases "deletionRequested vg")
    case True
    from registryAfter_deletion [OF True l] show ?thesis
      using removeDeviceClass_distinct [of "classesOf file" ?n] by auto
  next
    case False
    have n: "dcName (newDeviceClass vg) = ?n"
      by (simp add: newDeviceClass_def split: option.splits)
    from False a [OF l] consider (same) "?after = classesOf file"
      | (app) "?after = classesOf file @ [newDeviceClass vg]"
              "\<forall>d \<in> set (classesOf file). dcName d \<noteq> ?n" by blast
    then show ?thesis
    proof cases
      case same
      then show ?thesis by simp
    next
      case app
      have "dcName (newDeviceClass vg) \<notin> dcName ` set (classesOf file)"
      proof
        assume "dcName (newDeviceClass vg) \<in> dcName ` set (classesOf file)"
        then obtain x where "x \<in> set (classesOf file)" "dcName x = ?n" unfolding n by force
        with app(2) show False by blast
      qed
      then show ?thesis unfolding app(1) by simp
    qed
  qed
  show ?thesis
    apply (intro conjI)
    subgoal by (intro allI impI, rule saved_classes, assumption)
    subgoal by (intro allI impI, rule registryAfter_unread, assumption)
    subgoal using a b c d by blast
    done
qed

theorem device_classes_stay_distinct_witness:
  "LvmdSave \<lparr>SocketName = ''/run/topolvm/lvmd.sock'', DeviceClasses = [vg1Class]\<rparr>
     \<in> set (fst (reconcile healthyHost vg1Spec))
   \<and> registryAfter healthyHost vg1Spec None
       = Some \<lparr>SocketName = ''/run/topolvm/lvmd.sock'', DeviceClasses = [vg1Class]\<rparr>
   \<and> distinct (map dcName (classesOf (registryAfter healthyHost vg1Spec None)))
   \<and> LvmdDelete \<in> set (fst (reconcile teardownHost vg1Deleted))
   \<and> deletionRequested vg1Deleted
   \<and> registryAfter teardownHost vg1Deleted
         (Some \<lparr>SocketName = ''/run/topolvm/lvmd.sock'', DeviceClasses = [vg1Class]\<rparr>) = None
   \<and> registryAfter twoClassHost vg1Deleted
         (Some \<lparr>SocketName = ''/run/topolvm/lvmd.sock'', DeviceClasses = [vg0Class, vg1Class]\<rparr>)
       = Some \<lparr>SocketName = ''/run/topolvm/lvmd.sock'', DeviceClasses = [vg0Class]\<rparr>
   \<and> distinct (map dcName (classesOf (registryAfter twoClassHost vg1Deleted
         (Some \<lparr>SocketName = ''/run/topolvm/lvmd.sock'', DeviceClasses = [vg0Class, vg1Class]\<rparr>))))"
proof -
  let ?f1 = "Some \<lparr>SocketName = ''/run/topolvm/lvmd.sock'', DeviceClasses = [vg1Class]\<rparr>"
  let ?f2 = "Some \<lparr>SocketName = ''/run/topolvm/lvmd.sock'', DeviceClasses = [vg0Class, vg1Class]\<rparr>"
  have m: "LvmdSave \<lparr>SocketName = ''/run/topolvm/lvmd.sock'', DeviceClasses = [vg1Class]\<rparr>
     \<in> set (fst (reconcile healthyHost vg1Spec))"
    by (simp add: healthy_pass)
  have l0: "lvmdLoad healthyHost = Inr None"
    by (simp add: healthyHost_def oneDiskHost_def quietHost_def)
  have r0: "registryAfter healthyHost vg1Spec None = ?f1"
    unfolding registryAfter_def healthy_pass
    by (simp add: healthyHost_def oneDiskHost_def quietHost_def)
  from device_classes_stay_distinct [of healthyHost vg1Spec None] l0
  have d0: "distinct (map dcName (classesOf None)) \<longrightarrow>
              distinct (map dcName (classesOf (registryAfter healthyHost vg1Spec None)))"
    by blast
  then have d0': "distinct (map dcName (classesOf (registryAfter healthyHost vg1Spec None)))"
    by (simp add: classesOf_def)
  have l1: "lvmdLoad teardownHost = Inr ?f1"
    by (simp add: teardownHost_def quietHost_def)
  have t1: "fst (reconcile teardownHost vg1Deleted)
              = [LvmdLoad, GetVG ''vg1'', LVExists ''thin-pool-1'' ''vg1'', DeleteLV ''thin-pool-1'' ''vg1'',
                 DeleteVG vg1OnHost, LvmdDelete, RemoveStatus, UpdateFinalizerRemoved]"
    by (simp add: reconcile_def deletionSimps)
  have e1: "LvmdDelete \<in> set (fst (reconcile teardownHost vg1Deleted))"
    by (simp add: t1)
  have r1: "registryAfter teardownHost vg1Deleted ?f1 = None"
    unfolding registryAfter_def t1 by (simp add: teardownHost_def quietHost_def)
  have l2: "lvmdLoad twoClassHost = Inr ?f2"
    by (simp add: twoClassHost_def)
  have t2: "fst (reconcile twoClassHost vg1Deleted)
              = [LvmdLoad, GetVG ''vg1'', LVExists ''thin-pool-1'' ''vg1'', DeleteLV ''thin-pool-1'' ''vg1'',
                 DeleteVG vg1OnHost,
                 LvmdSave \<lparr>SocketName = ''/run/topolvm/lvmd.sock'', DeviceClasses = [vg0Class]\<rparr>,
                 RemoveStatus, UpdateFinalizerRemoved]"
    by (simp add: reconcile_def deletionSimps twoClassHost_def vg0Class_def)
  have r2: "registryAfter twoClassHost vg1Deleted ?f2
              = Some \<lparr>SocketName = ''/run/topolvm/lvmd.sock'', DeviceClasses = [vg0Class]\<rparr>"
    unfolding registryAfter_def t2 by (simp add: twoClassHost_def teardownHost_def quietHost_def)
  from device_classes_stay_distinct [of twoClassHost vg1Deleted ?f2] l2
  have "distinct (map dcName (classesOf ?f2)) \<longrightarrow>
              distinct (map dcName (classesOf (registryAfter twoClassHost vg1Deleted ?f2)))"
    by blast
  then have d2: "distinct (map dcName (classesOf (registryAfter twoClassHost vg1Deleted ?f2)))"
    by (simp add: classesOf_def vg0Class_def vg1Class_def)
  from device_classes_stay_distinct [of teardownHost vg1Deleted ?f1] l1
  have "LvmdDelete \<in> set (fst (reconcile teardownHost vg1Deleted)) \<longrightarrow>
            deletionRequested vg1Deleted \<and> length (classesOf ?f1) \<le> 1
            \<and> (\<forall>d \<in> set (classesOf ?f1). dcName d = lvgName vg1Deleted)"
    by blast
  with e1 have del: "deletionRequested vg1Deleted" by blast
  from m r0 d0' e1 del r1 r2 d2 show ?thesis by (intro conjI)
qed

lemma percent_29_of_100:
  "fmul (fdiv (Finite 29) (Finite 100)) (Finite 100) = Finite (8162774324609023 / 281474976710656)"
  by code_simp

text \<open>C3: with a thin pool of 29.00g in a volume group of 100.00g the fill percent is 29; with
  the target 29, not greater than the fill percent, \<^verbatim>\<open>extendThinPool\<close> issues the extend command
  all the same: in \<^verbatim>\<open>float64\<close> the quotient 29/100 times 100 is 28.999999999999996, and the
  conversion to \<^verbatim>\<open>int\<close> truncates it to 28.\<close>

theorem extend_issued_at_equal_percent:
  "(29 / 100 :: rat) * 100 = 29
   \<and> \<not> (29 < (29 :: int))
   \<and> extendThinPool sizesHost ''vg1'' ''29.00g''
         \<lparr>tpName = ''thin-pool-1'', SizePercent = 29, OverprovisionRatio = 10\<rparr>
       = ([GetVG ''vg1'', ExtendLV ''thin-pool-1'' ''vg1'' 29], None)"
proof -
  have f: "\<lfloor>8162774324609023 / 281474976710656 :: rat\<rfloor> = 28" by code_simp
  show ?thesis
    by (simp add: extendThinPool_def sizesHost_def quietHost_def vg1OnHost_def percent_29_of_100
        toInt_def f)
qed

end
